theory Spec2Isabelle
  imports Complex_Main "HOL-Library.AList"
begin

section \<open>JSON values as the contract sees them\<close>

text \<open>
  Every log entry and every stored record is the result of \<^verbatim>\<open>JSON.parse\<close>. A JavaScript
  number is a double; the finite doubles are rationals, and \<^verbatim>\<open>-0\<close> is identified with
  \<^verbatim>\<open>0\<close> (the contract never divides). The JavaScript value \<^verbatim>\<open>undefined\<close> is not a
  JSON value: a property read that finds nothing is \<open>None\<close>. An object is the list of
  its properties in their order; the names of a parsed object are distinct.
\<close>

datatype json =
    JNull
  | JBool bool
  | JNum rat
  | JStr string
  | JArr "json list"
  | JObj "(string \<times> json) list"

type_synonym obj = "(string \<times> json) list"

type_synonym jsval = "json option"

text \<open>\<^verbatim>\<open>Number.prototype.toString\<close> is a built-in of the language; it is a parameter.\<close>

type_synonym numfmt = "rat \<Rightarrow> string"

datatype fault = TypeError | KeyNotString

text \<open>
  \<^verbatim>\<open>entry.name\<close> for the property names the contract reads, on a value that is not
  \<^verbatim>\<open>null\<close>: an object gives its own property, every other value gives \<^verbatim>\<open>undefined\<close>.
\<close>

fun fld :: "json \<Rightarrow> string \<Rightarrow> jsval" where
  "fld (JObj fs) k = map_of fs k"
| "fld _ k = None"

text \<open>Truthiness, as \<^verbatim>\<open>||\<close> and \<^verbatim>\<open>!\<close> test it.\<close>

fun truthy :: "jsval \<Rightarrow> bool" where
  "truthy None = False"
| "truthy (Some JNull) = False"
| "truthy (Some (JBool b)) = b"
| "truthy (Some (JNum n)) = (n \<noteq> 0)"
| "truthy (Some (JStr s)) = (s \<noteq> [])"
| "truthy (Some (JArr xs)) = True"
| "truthy (Some (JObj fs)) = True"

definition js_or :: "jsval \<Rightarrow> jsval \<Rightarrow> jsval" where
  "js_or a b = (if truthy a then a else b)"

text \<open>
  \<^verbatim>\<open>===\<close> between two values that come from different \<^verbatim>\<open>JSON.parse\<close> calls (or from a
  literal): primitives compare by value, two objects or arrays are never the same reference.
\<close>

fun strictEq :: "jsval \<Rightarrow> jsval \<Rightarrow> bool" where
  "strictEq None None = True"
| "strictEq (Some JNull) (Some JNull) = True"
| "strictEq (Some (JBool a)) (Some (JBool b)) = (a = b)"
| "strictEq (Some (JNum a)) (Some (JNum b)) = (a = b)"
| "strictEq (Some (JStr a)) (Some (JStr b)) = (a = b)"
| "strictEq _ _ = False"

text \<open>
  The string a template literal substitutes for a value. An object with an own
  \<^verbatim>\<open>toString\<close> property (never callable in parsed JSON) cannot be converted and raises a
  TypeError; an array joins its elements with commas, \<^verbatim>\<open>null\<close> elements as the empty string.
\<close>

fun toStr :: "numfmt \<Rightarrow> json \<Rightarrow> fault + string"
  and joinElems :: "numfmt \<Rightarrow> json list \<Rightarrow> fault + string" where
  "toStr ns JNull = Inr ''null''"
| "toStr ns (JBool b) = Inr (if b then ''true'' else ''false'')"
| "toStr ns (JNum n) = Inr (ns n)"
| "toStr ns (JStr s) = Inr s"
| "toStr ns (JObj fs) =
     (if ''toString'' \<in> fst ` set fs then Inl TypeError else Inr ''[object Object]'')"
| "toStr ns (JArr xs) = joinElems ns xs"
| "joinElems ns [] = Inr []"
| "joinElems ns (x # xs) =
     (case (if x = JNull then Inr [] else toStr ns x) of
        Inl e \<Rightarrow> Inl e
      | Inr s \<Rightarrow>
          (if xs = [] then Inr s
           else (case joinElems ns xs of Inl e \<Rightarrow> Inl e | Inr t \<Rightarrow> Inr (s @ '','' @ t))))"

definition tmpl :: "numfmt \<Rightarrow> jsval \<Rightarrow> fault + string" where
  "tmpl ns v = (case v of None \<Rightarrow> Inr ''undefined'' | Some j \<Rightarrow> toStr ns j)"

text \<open>An object literal handed to \<^verbatim>\<open>JSON.stringify\<close>: properties whose value is undefined are left out.\<close>

definition mkObj :: "(string \<times> jsval) list \<Rightarrow> obj" where
  "mkObj ps = List.map_filter (\<lambda>(k, v). map_option (Pair k) v) ps"

text \<open>
  \<^verbatim>\<open>o.k = v\<close> on a parsed record that is stringified afterwards: an existing property keeps
  its place, a new one goes last, and a property set to undefined is not written out.
\<close>

definition setProp :: "obj \<Rightarrow> string \<Rightarrow> jsval \<Rightarrow> obj" where
  "setProp ob k v = (case v of None \<Rightarrow> AList.delete k ob | Some j \<Rightarrow> AList.update k j ob)"

section \<open>Identifiers\<close>

text \<open>
  \<^verbatim>\<open>nextId(prefix, seq)\<close> is the prefix, a dash and \<^verbatim>\<open>String(seq).padStart(3, '0')\<close>.
  The counters are natural numbers (a counter held in a double is exact below \<open>2^53\<close>),
  and \<open>str_nat\<close> writes one in decimal.
\<close>

function str_nat :: "nat \<Rightarrow> string" where
  "str_nat n =
     (if n < 10 then [''0123456789'' ! n]
      else str_nat (n div 10) @ [''0123456789'' ! (n mod 10)])"
  by pat_completeness auto
termination
  by (relation "measure id") auto

declare str_nat.simps [simp del]

definition padStart3 :: "string \<Rightarrow> string" where
  "padStart3 s = replicate (3 - length s) (CHR ''0'') @ s"

definition nextId :: "string \<Rightarrow> nat \<Rightarrow> string" where
  "nextId prefix seq = prefix @ ''-'' @ padStart3 (str_nat seq)"

text \<open>The number a string of decimal digits denotes (used to show that ids are injective).\<close>

definition nat_of_digits :: "string \<Rightarrow> nat" where
  "nat_of_digits ds = foldl (\<lambda>a c. 10 * a + (of_char c - 48)) 0 ds"

section \<open>The replicated state\<close>

text \<open>
  Modelled from the spec: the keyed View store of section 4.1 (the store itself is an
  external library). \<^verbatim>\<open>put\<close> upserts, \<^verbatim>\<open>get\<close> gives the stored value or nothing. The
  stored strings are always \<^verbatim>\<open>JSON.stringify\<close> of an object, so the View holds the objects
  they parse to. What the store does with a key that is not a string is outside the source;
  the model stops there with the fault \<open>KeyNotString\<close>.

  The four counters are the module-level variables of the contract: they live as long as
  the process, not in the View.
\<close>

type_synonym view = "string \<rightharpoonup> obj"

record state =
  listingSeq :: nat
  offerSeq :: nat
  dealSeq :: nat
  ruleSeq :: nat
  view :: view

definition fresh :: "view \<Rightarrow> state" where
  "fresh v = \<lparr>listingSeq = 0, offerSeq = 0, dealSeq = 0, ruleSeq = 0, view = v\<rparr>"

definition storeKey :: "jsval \<Rightarrow> fault + string" where
  "storeKey v = (case v of Some (JStr s) \<Rightarrow> Inr s | _ \<Rightarrow> Inl KeyNotString)"

definition offerKey :: "numfmt \<Rightarrow> jsval \<Rightarrow> jsval \<Rightarrow> fault + string" where
  "offerKey ns lid oid =
     (case tmpl ns lid of
        Inl e \<Rightarrow> Inl e
      | Inr a \<Rightarrow> (case tmpl ns oid of Inl e \<Rightarrow> Inl e | Inr b \<Rightarrow> Inr (a @ '':'' @ b)))"

definition ruleKey :: "numfmt \<Rightarrow> jsval \<Rightarrow> jsval \<Rightarrow> fault + string" where
  "ruleKey ns owner rid =
     (case tmpl ns owner of
        Inl e \<Rightarrow> Inl e
      | Inr a \<Rightarrow> (case tmpl ns rid of Inl e \<Rightarrow> Inl e | Inr b \<Rightarrow> Inr (''rule:'' @ a @ '':'' @ b)))"

section \<open>The apply handler, one definition per case of the switch\<close>

definition listing_record :: "string \<Rightarrow> json \<Rightarrow> obj" where
  "listing_record lstId entry =
     mkObj [(''id'', Some (JStr lstId)),
            (''title'', fld entry ''title''),
            (''desc'', js_or (fld entry ''desc'') (Some (JStr []))),
            (''price'', fld entry ''price''),
            (''currency'', js_or (fld entry ''currency'') (Some (JStr ''TNK''))),
            (''category'', js_or (fld entry ''category'') (Some (JStr ''general''))),
            (''tags'', js_or (fld entry ''tags'') (Some (JStr []))),
            (''seller'', fld entry ''seller''),
            (''createdAt'', fld entry ''ts''),
            (''status'', Some (JStr ''active''))]"

definition listing_post :: "json \<Rightarrow> state \<Rightarrow> fault + state" where
  "listing_post entry s =
     (let n = listingSeq s + 1;
          id = nextId ''LST'' n
      in Inr (s\<lparr>listingSeq := n, view := (view s)(id \<mapsto> listing_record id entry)\<rparr>))"

definition listing_update :: "json \<Rightarrow> state \<Rightarrow> fault + state" where
  "listing_update entry s =
     (case storeKey (fld entry ''id'') of
        Inl e \<Rightarrow> Inl e
      | Inr k \<Rightarrow>
          (case view s k of
             None \<Rightarrow> Inr s
           | Some listing \<Rightarrow>
               if \<not> strictEq (map_of listing ''seller'') (fld entry ''seller'') then Inr s
               else
                 let l1 = (if fld entry ''price'' \<noteq> None
                           then setProp listing ''price'' (fld entry ''price'') else listing);
                     l2 = (if fld entry ''desc'' \<noteq> None
                           then setProp l1 ''desc'' (fld entry ''desc'') else l1);
                     l3 = setProp l2 ''updatedAt'' (fld entry ''ts'')
                 in Inr (s\<lparr>view := (view s)(k \<mapsto> l3)\<rparr>)))"

definition listing_remove :: "json \<Rightarrow> state \<Rightarrow> fault + state" where
  "listing_remove entry s =
     (case storeKey (fld entry ''id'') of
        Inl e \<Rightarrow> Inl e
      | Inr k \<Rightarrow>
          (case view s k of
             None \<Rightarrow> Inr s
           | Some listing \<Rightarrow>
               if \<not> strictEq (map_of listing ''seller'') (fld entry ''seller'') then Inr s
               else
                 let l1 = setProp listing ''status'' (Some (JStr ''removed''));
                     l2 = setProp l1 ''removedAt'' (fld entry ''ts'')
                 in Inr (s\<lparr>view := (view s)(k \<mapsto> l2)\<rparr>)))"

definition offer_record :: "string \<Rightarrow> json \<Rightarrow> obj" where
  "offer_record offerId entry =
     mkObj [(''id'', Some (JStr offerId)),
            (''listingId'', fld entry ''listingId''),
            (''buyer'', fld entry ''buyer''),
            (''amount'', fld entry ''amount''),
            (''note'', js_or (fld entry ''note'') (Some (JStr []))),
            (''status'', Some (JStr ''pending'')),
            (''createdAt'', fld entry ''ts''),
            (''history'', Some (JArr [JObj (mkObj
               [(''amount'', fld entry ''amount''),
                (''by'', fld entry ''buyer''),
                (''at'', fld entry ''ts'')])]))]"

definition offer_send :: "numfmt \<Rightarrow> json \<Rightarrow> state \<Rightarrow> fault + state" where
  "offer_send ns entry s =
     (let n = offerSeq s + 1;
          offerId = nextId ''OFR'' n
      in case offerKey ns (fld entry ''listingId'') (Some (JStr offerId)) of
           Inl e \<Rightarrow> Inl e
         | Inr key \<Rightarrow>
             Inr (s\<lparr>offerSeq := n, view := (view s)(key \<mapsto> offer_record offerId entry)\<rparr>))"

definition offer_counter :: "numfmt \<Rightarrow> json \<Rightarrow> state \<Rightarrow> fault + state" where
  "offer_counter ns entry s =
     (case offerKey ns (fld entry ''listingId'') (fld entry ''offerId'') of
        Inl e \<Rightarrow> Inl e
      | Inr key \<Rightarrow>
          (case view s key of
             None \<Rightarrow> Inr s
           | Some offer \<Rightarrow>
               if \<not> strictEq (map_of offer ''status'') (Some (JStr ''pending'')) then Inr s
               else
                 let o1 = setProp offer ''amount'' (fld entry ''amount'');
                     o2 = setProp o1 ''status'' (Some (JStr ''pending''))
                 in (case map_of o2 ''history'' of
                       Some (JArr h) \<Rightarrow>
                         let o3 = setProp o2 ''history'' (Some (JArr (h @ [JObj (mkObj
                                    [(''amount'', fld entry ''amount''),
                                     (''by'', fld entry ''by''),
                                     (''at'', fld entry ''ts'')])])));
                             o4 = setProp o3 ''lastUpdated'' (fld entry ''ts'')
                         in Inr (s\<lparr>view := (view s)(key \<mapsto> o4)\<rparr>)
                     | _ \<Rightarrow> Inl TypeError)))"

text \<open>The three parts of the accept case: the offer as accepted, the deal record, the listing as sold.\<close>

definition accepted_offer :: "json \<Rightarrow> obj \<Rightarrow> obj" where
  "accepted_offer entry offer =
     (let o1 = setProp offer ''status'' (Some (JStr ''accepted''));
          o2 = setProp o1 ''acceptedAt'' (fld entry ''ts'')
      in setProp o2 ''acceptedBy'' (fld entry ''by''))"

definition deal_record :: "string \<Rightarrow> json \<Rightarrow> obj \<Rightarrow> obj \<Rightarrow> obj" where
  "deal_record dealId entry offer listing =
     mkObj [(''id'', Some (JStr dealId)),
            (''listingId'', fld entry ''listingId''),
            (''offerId'', fld entry ''offerId''),
            (''listingTitle'', js_or (map_of listing ''title'') (Some (JStr []))),
            (''buyer'', map_of offer ''buyer''),
            (''seller'', js_or (map_of listing ''seller'') (fld entry ''seller'')),
            (''finalPrice'', map_of offer ''amount''),
            (''currency'', js_or (map_of listing ''currency'') (Some (JStr ''TNK''))),
            (''closedAt'', fld entry ''ts'')]"

definition sold_listing :: "string \<Rightarrow> json \<Rightarrow> obj \<Rightarrow> obj" where
  "sold_listing dealId entry listing =
     (let l1 = setProp listing ''status'' (Some (JStr ''sold''));
          l2 = setProp l1 ''soldAt'' (fld entry ''ts'')
      in setProp l2 ''dealId'' (Some (JStr dealId)))"

definition offer_accept :: "numfmt \<Rightarrow> json \<Rightarrow> state \<Rightarrow> fault + state" where
  "offer_accept ns entry s =
     (case offerKey ns (fld entry ''listingId'') (fld entry ''offerId'') of
        Inl e \<Rightarrow> Inl e
      | Inr key \<Rightarrow>
          (case view s key of
             None \<Rightarrow> Inr s
           | Some offer \<Rightarrow>
               if \<not> strictEq (map_of offer ''status'') (Some (JStr ''pending'')) then Inr s
               else
                 let v1 = (view s)(key \<mapsto> accepted_offer entry offer);
                     n = dealSeq s + 1;
                     dealId = nextId ''DEAL'' n
                 in (case storeKey (fld entry ''listingId'') of
                       Inl e \<Rightarrow> Inl e
                     | Inr lk \<Rightarrow>
                         let listingRaw = v1 lk;
                             listing = (case listingRaw of None \<Rightarrow> [] | Some l \<Rightarrow> l);
                             v2 = v1(dealId \<mapsto> deal_record dealId entry offer listing);
                             v3 = (if listingRaw \<noteq> None
                                   then v2(lk \<mapsto> sold_listing dealId entry listing)
                                   else v2)
                         in Inr (s\<lparr>dealSeq := n, view := v3\<rparr>))))"

definition offer_decline :: "numfmt \<Rightarrow> json \<Rightarrow> state \<Rightarrow> fault + state" where
  "offer_decline ns entry s =
     (case offerKey ns (fld entry ''listingId'') (fld entry ''offerId'') of
        Inl e \<Rightarrow> Inl e
      | Inr key \<Rightarrow>
          (case view s key of
             None \<Rightarrow> Inr s
           | Some offer \<Rightarrow>
               if \<not> strictEq (map_of offer ''status'') (Some (JStr ''pending'')) then Inr s
               else
                 let o1 = setProp offer ''status'' (Some (JStr ''declined''));
                     o2 = setProp o1 ''declinedAt'' (fld entry ''ts'');
                     o3 = setProp o2 ''declinedBy'' (fld entry ''by'')
                 in Inr (s\<lparr>view := (view s)(key \<mapsto> o3)\<rparr>)))"

definition rule_record :: "string \<Rightarrow> json \<Rightarrow> obj" where
  "rule_record ruleId entry =
     mkObj [(''id'', Some (JStr ruleId)),
            (''owner'', fld entry ''owner''),
            (''type'', fld entry ''ruleType''),
            (''params'', fld entry ''params''),
            (''createdAt'', fld entry ''ts'')]"

definition rule_set :: "numfmt \<Rightarrow> json \<Rightarrow> state \<Rightarrow> fault + state" where
  "rule_set ns entry s =
     (let n = ruleSeq s + 1;
          ruleId = nextId ''RULE'' n
      in case ruleKey ns (fld entry ''owner'') (Some (JStr ruleId)) of
           Inl e \<Rightarrow> Inl e
         | Inr key \<Rightarrow>
             Inr (s\<lparr>ruleSeq := n, view := (view s)(key \<mapsto> rule_record ruleId entry)\<rparr>))"

definition rule_delete :: "numfmt \<Rightarrow> json \<Rightarrow> state \<Rightarrow> fault + state" where
  "rule_delete ns entry s =
     (case ruleKey ns (fld entry ''owner'') (fld entry ''ruleId'') of
        Inl e \<Rightarrow> Inl e
      | Inr key \<Rightarrow>
          (case view s key of
             None \<Rightarrow> Inr s
           | Some rule \<Rightarrow>
               if \<not> strictEq (map_of rule ''owner'') (fld entry ''owner'') then Inr s
               else Inr (s\<lparr>view := (view s)(key \<mapsto> setProp rule ''deleted'' (Some (JBool True)))\<rparr>)))"

text \<open>
  The body of the loop after the \<^verbatim>\<open>try\<close>: \<^verbatim>\<open>entry.op\<close> on \<^verbatim>\<open>null\<close> raises a TypeError,
  outside the \<^verbatim>\<open>try\<close>; the \<^verbatim>\<open>switch\<close> compares with \<^verbatim>\<open>===\<close> and has no default case.
\<close>

definition applyEntry :: "numfmt \<Rightarrow> json \<Rightarrow> state \<Rightarrow> fault + state" where
  "applyEntry ns entry s =
     (if entry = JNull then Inl TypeError
      else
        let op = fld entry ''op'' in
        if op = Some (JStr ''listing_post'') then listing_post entry s
        else if op = Some (JStr ''listing_update'') then listing_update entry s
        else if op = Some (JStr ''listing_remove'') then listing_remove entry s
        else if op = Some (JStr ''offer_send'') then offer_send ns entry s
        else if op = Some (JStr ''offer_counter'') then offer_counter ns entry s
        else if op = Some (JStr ''offer_accept'') then offer_accept ns entry s
        else if op = Some (JStr ''offer_decline'') then offer_decline ns entry s
        else if op = Some (JStr ''rule_set'') then rule_set ns entry s
        else if op = Some (JStr ''rule_delete'') then rule_delete ns entry s
        else Inr s)"

text \<open>
  A node of the log is what the \<^verbatim>\<open>try\<close> block makes of it: the decoded JSON value, or
  \<open>Undecodable\<close> when \<^verbatim>\<open>JSON.parse(node.value.toString())\<close> throws (the \<^verbatim>\<open>catch\<close> continues
  with the next node). A fault raised by an entry leaves the loop and the function.
\<close>

datatype node = Undecodable | Decoded json

fun apply_nodes :: "numfmt \<Rightarrow> node list \<Rightarrow> state \<Rightarrow> fault + state" where
  "apply_nodes ns [] s = Inr s"
| "apply_nodes ns (Undecodable # nodes) s = apply_nodes ns nodes s"
| "apply_nodes ns (Decoded entry # nodes) s =
     (case applyEntry ns entry s of Inl e \<Rightarrow> Inl e | Inr s' \<Rightarrow> apply_nodes ns nodes s')"

section \<open>The command router: rule_set\<close>

text \<open>
  The router's replies: \<^verbatim>\<open>_ok(msg, data)\<close> and \<^verbatim>\<open>_err(msg)\<close>. A reply is the object the
  caller receives.
\<close>

definition ok_reply :: "jsval \<Rightarrow> jsval \<Rightarrow> obj" where
  "ok_reply msg data =
     mkObj [(''ok'', Some (JBool True)),
            (''message'', if truthy msg then msg else None),
            (''data'', data)]"

definition err_reply :: "string \<Rightarrow> obj" where
  "err_reply msg = [(''ok'', JBool False), (''error'', JStr msg)]"

text \<open>
  \<^verbatim>\<open>_ruleSet(cmd)\<close> for a router of the given address, at the clock reading \<open>now\<close>
  (\<^verbatim>\<open>Date.now()\<close>). The result is the reply and the entries handed to \<^verbatim>\<open>base.append\<close>, each
  as the value its JSON text decodes to.
\<close>

definition rule_entry :: "string \<Rightarrow> int \<Rightarrow> string \<Rightarrow> obj \<Rightarrow> json" where
  "rule_entry address now ruleType params =
     JObj (mkObj [(''op'', Some (JStr ''rule_set'')),
                  (''ruleType'', Some (JStr ruleType)),
                  (''params'', Some (JObj params)),
                  (''owner'', Some (JStr address)),
                  (''ts'', Some (JNum (of_int now)))])"

definition ruleSet :: "string \<Rightarrow> int \<Rightarrow> json \<Rightarrow> obj \<times> json list" where
  "ruleSet address now cmd =
     (let category = fld cmd ''category'';
          listing_id = fld cmd ''listing_id'';
          auto_buy_below = fld cmd ''auto_buy_below'';
          auto_accept_above = fld cmd ''auto_accept_above'';
          auto_counter_ratio = fld cmd ''auto_counter_ratio''
      in if auto_buy_below \<noteq> None then
           (ok_reply (Some (JStr (''Rule set: '' @ ''auto_buy''))) None,
            [rule_entry address now ''auto_buy''
               (mkObj [(''category'', category), (''max_price'', auto_buy_below)])])
         else if auto_accept_above \<noteq> None then
           (ok_reply (Some (JStr (''Rule set: '' @ ''auto_accept''))) None,
            [rule_entry address now ''auto_accept''
               (mkObj [(''listingId'', listing_id), (''min_price'', auto_accept_above)])])
         else if auto_counter_ratio \<noteq> None then
           (ok_reply (Some (JStr (''Rule set: '' @ ''auto_counter''))) None,
            [rule_entry address now ''auto_counter''
               (mkObj [(''listingId'', listing_id), (''ratio'', auto_counter_ratio)])])
         else
           (err_reply ''rule_set: specify auto_buy_below, auto_accept_above, or auto_counter_ratio'',
            []))"

text \<open>
  The claim as the specification words it, to compare with the code: exactly one of the
  three parameter shapes is present, the last two of them with a listing id.
\<close>

definition spec_one_shape :: "json \<Rightarrow> bool" where
  "spec_one_shape cmd =
     (length (filter id
        [fld cmd ''auto_buy_below'' \<noteq> None,
         fld cmd ''auto_accept_above'' \<noteq> None \<and> fld cmd ''listing_id'' \<noteq> None,
         fld cmd ''auto_counter_ratio'' \<noteq> None \<and> fld cmd ''listing_id'' \<noteq> None]) = 1)"

text \<open>A command that names two of the three parameters.\<close>

definition cmd_two_shapes :: json where
  "cmd_two_shapes = JObj [(''op'', JStr ''rule_set''), (''listing_id'', JStr ''LST-001''),
     (''auto_buy_below'', JNum 50), (''auto_accept_above'', JNum 100)]"

text \<open>A command with the ratio parameter only, and one with none of the three.\<close>

definition cmd_ratio :: json where
  "cmd_ratio = JObj [(''op'', JStr ''rule_set''), (''listing_id'', JStr ''LST-001''),
     (''auto_counter_ratio'', JNum (9 / 10))]"

definition cmd_none :: json where
  "cmd_none = JObj [(''op'', JStr ''rule_set''), (''listing_id'', JStr ''LST-001'')]"

section \<open>The rule engine: rules for an arriving offer\<close>

text \<open>
  The rules are the list \<^verbatim>\<open>rule_list\<close> returns, in its order. The numeric properties read
  here (the offered amount, a rule's floor and ratio, the listing's price) hold a number or
  are absent; \<open>None\<close> stands for \<^verbatim>\<open>undefined\<close> and for \<^verbatim>\<open>NaN\<close>, which every comparison
  answers with false.
\<close>

type_synonym jsnum = "rat option"

record rule_params =
  p_category :: "string option"
  p_max_price :: jsnum
  p_listingId :: "string option"
  p_min_price :: jsnum
  p_ratio :: jsnum

record rule =
  rule_type :: string
  rule_params :: rule_params

record offer_msg =
  msg_amount :: jsnum
  msg_offerId :: "string option"

text \<open>The commands the engine hands to the router: listing id, offer id, and the counter amount.\<close>

datatype command =
    Offer_accept string "string option"
  | Offer_counter string "string option" rat

definition js_ge :: "jsnum \<Rightarrow> jsnum \<Rightarrow> bool" where
  "js_ge a b = (case (a, b) of (Some x, Some y) \<Rightarrow> y \<le> x | _ \<Rightarrow> False)"

definition js_lt :: "jsnum \<Rightarrow> jsnum \<Rightarrow> bool" where
  "js_lt a b = (case (a, b) of (Some x, Some y) \<Rightarrow> x < y | _ \<Rightarrow> False)"

text \<open>
  \<^verbatim>\<open>Math.floor(price * ratio)\<close>. The product of two doubles is rounded to a double; that
  multiplication is the parameter \<open>fmul\<close>. The floor of a finite double is exact.
\<close>

definition floor_of_product :: "(rat \<Rightarrow> rat \<Rightarrow> rat) \<Rightarrow> jsnum \<Rightarrow> jsnum \<Rightarrow> jsnum" where
  "floor_of_product fmul price r =
     (case (price, r) of (Some p, Some q) \<Rightarrow> Some (of_int \<lfloor>fmul p q\<rfloor>) | _ \<Rightarrow> None)"

text \<open>
  \<^verbatim>\<open>_evalAcceptRules(listingId, offerMsg)\<close>. \<open>listingResult\<close> is what \<^verbatim>\<open>listing_get\<close> answers
  for this listing while the rules are walked: \<open>None\<close> when the reply is not ok, else the
  price of the listing found.
\<close>

fun evalAcceptRules ::
  "(rat \<Rightarrow> rat \<Rightarrow> rat) \<Rightarrow> jsnum option \<Rightarrow> string \<Rightarrow> offer_msg \<Rightarrow> rule list \<Rightarrow> command list" where
  "evalAcceptRules fmul listingResult lid offerMsg [] = []"
| "evalAcceptRules fmul listingResult lid offerMsg (r # rules) =
     (if rule_type r = ''auto_accept'' \<and> p_listingId (rule_params r) = Some lid
         \<and> js_ge (msg_amount offerMsg) (p_min_price (rule_params r))
      then [Offer_accept lid (msg_offerId offerMsg)]
      else if rule_type r = ''auto_counter'' \<and> p_listingId (rule_params r) = Some lid
      then (case listingResult of
              None \<Rightarrow> evalAcceptRules fmul listingResult lid offerMsg rules
            | Some price \<Rightarrow>
                (case floor_of_product fmul price (p_ratio (rule_params r)) of
                   Some fl \<Rightarrow>
                     if js_lt (msg_amount offerMsg) (Some fl)
                     then [Offer_counter lid (msg_offerId offerMsg) fl]
                     else [Offer_accept lid (msg_offerId offerMsg)]
                 | None \<Rightarrow> [Offer_accept lid (msg_offerId offerMsg)]))
      else evalAcceptRules fmul listingResult lid offerMsg rules)"

text \<open>
  The claim as the specification words it: the floor is the asking price times the ratio,
  an offer at or above it is accepted, one below it is countered at the floor.
\<close>

definition spec_auto_counter :: "string \<Rightarrow> string option \<Rightarrow> rat \<Rightarrow> rat \<Rightarrow> rat \<Rightarrow> command list" where
  "spec_auto_counter lid oid price r amount =
     (if price * r \<le> amount then [Offer_accept lid oid] else [Offer_counter lid oid (price * r)])"

text \<open>A rule of each kind the router creates, scoped to a listing.\<close>

definition accept_rule :: "string \<Rightarrow> rat \<Rightarrow> rule" where
  "accept_rule lid floor_price =
     \<lparr>rule_type = ''auto_accept'',
      rule_params = \<lparr>p_category = None, p_max_price = None, p_listingId = Some lid,
                     p_min_price = Some floor_price, p_ratio = None\<rparr>\<rparr>"

definition counter_rule :: "string \<Rightarrow> rat \<Rightarrow> rule" where
  "counter_rule lid r =
     \<lparr>rule_type = ''auto_counter'',
      rule_params = \<lparr>p_category = None, p_max_price = None, p_listingId = Some lid,
                     p_min_price = None, p_ratio = Some r\<rparr>\<rparr>"

text \<open>
  A rule acts on an offer when the walk through the list stops at it: an accept rule of
  this listing whose floor the amount reaches, or a counter rule of this listing (the
  listing being found).
\<close>

definition acts :: "string \<Rightarrow> offer_msg \<Rightarrow> rule \<Rightarrow> bool" where
  "acts lid offerMsg r =
     (rule_type r = ''auto_accept'' \<and> p_listingId (rule_params r) = Some lid
        \<and> js_ge (msg_amount offerMsg) (p_min_price (rule_params r))
      \<or> rule_type r = ''auto_counter'' \<and> p_listingId (rule_params r) = Some lid)"

section \<open>The rule engine: rate limiter\<close>

definition DEAL_RATE_WINDOW_MS :: int where
  "DEAL_RATE_WINDOW_MS = 60 * 60 * 1000"

text \<open>
  \<^verbatim>\<open>_checkRateLimit(maxPerHour)\<close> at the clock reading \<open>now\<close>, on the list of recorded
  timestamps; it returns its answer and the list it leaves behind.
\<close>

definition checkRateLimit :: "int \<Rightarrow> int \<Rightarrow> int list \<Rightarrow> bool \<times> int list" where
  "checkRateLimit maxPerHour now dealTimestamps =
     (let kept = filter (\<lambda>t. now - t < DEAL_RATE_WINDOW_MS) dealTimestamps
      in if maxPerHour \<le> int (length kept) then (False, kept) else (True, kept @ [now]))"

text \<open>
  A sequence of triggers: the limiter is asked once at each time of the list, in order.
  The result is the triggers that were accepted and the list left behind.
\<close>

fun triggers :: "int \<Rightarrow> int list \<Rightarrow> int list \<Rightarrow> int list \<times> int list" where
  "triggers maxPerHour [] ts = ([], ts)"
| "triggers maxPerHour (now # rest) ts =
     (case checkRateLimit maxPerHour now ts of
        (ok, ts') \<Rightarrow>
          (case triggers maxPerHour rest ts' of
             (acc, ts'') \<Rightarrow> ((if ok then now # acc else acc), ts'')))"

definition in_window :: "int \<Rightarrow> int \<Rightarrow> bool" where
  "in_window now t = (now - t < DEAL_RATE_WINDOW_MS)"

section \<open>Concrete entries and logs\<close>

text \<open>The entries below are the ones the command router appends for the commands named.\<close>

definition e_post :: json where
  "e_post = JObj [(''op'', JStr ''listing_post''), (''title'', JStr ''Keyboard''),
     (''desc'', JStr []), (''price'', JNum 120), (''currency'', JStr ''TNK''),
     (''category'', JStr ''electronics''), (''tags'', JStr []),
     (''seller'', JStr ''S''), (''ts'', JNum 1)]"

definition e_send :: "string \<Rightarrow> string \<Rightarrow> rat \<Rightarrow> rat \<Rightarrow> json" where
  "e_send lid buyer amount ts = JObj [(''op'', JStr ''offer_send''), (''listingId'', JStr lid),
     (''buyer'', JStr buyer), (''amount'', JNum amount), (''note'', JStr []), (''ts'', JNum ts)]"

definition e_accept :: "string \<Rightarrow> string \<Rightarrow> string \<Rightarrow> rat \<Rightarrow> json" where
  "e_accept lid oid who ts = JObj [(''op'', JStr ''offer_accept''), (''listingId'', JStr lid),
     (''offerId'', JStr oid), (''by'', JStr who), (''seller'', JStr who), (''ts'', JNum ts)]"

definition e_update :: "string \<Rightarrow> rat \<Rightarrow> string \<Rightarrow> rat \<Rightarrow> json" where
  "e_update k price who ts = JObj [(''op'', JStr ''listing_update''), (''id'', JStr k),
     (''price'', JNum price), (''seller'', JStr who), (''ts'', JNum ts)]"

definition post_log :: "node list" where
  "post_log = [Decoded e_post]"

definition two_offers_prefix :: "node list" where
  "two_offers_prefix =
     [Decoded e_post,
      Decoded (e_send ''LST-001'' ''B'' 90 2),
      Decoded (e_send ''LST-001'' ''C'' 100 3),
      Decoded (e_accept ''LST-001'' ''OFR-001'' ''S'' 4)]"

definition nested_offer_log :: "node list" where
  "nested_offer_log =
     [Decoded (e_send ''X'' ''B'' 90 1),
      Decoded (e_accept ''X'' ''OFR-001'' ''S'' 2),
      Decoded (e_send ''X:OFR-001'' ''C'' 1 3)]"

definition deal_log :: "node list" where
  "deal_log =
     [Decoded e_post,
      Decoded (e_send ''LST-001'' ''B'' 90 2),
      Decoded (e_accept ''LST-001'' ''OFR-001'' ''S'' 3)]"

text \<open>
  The decimal digits of an integer: what \<^verbatim>\<open>Number.prototype.toString\<close> gives for the
  integers of magnitude below \<open>10^21\<close>. It is the formatter of the closed runs below, all of
  whose keys are built from strings.
\<close>

definition int_digits :: numfmt where
  "int_digits r = (if r < 0 then CHR ''-'' # str_nat (nat \<lfloor>- r\<rfloor>) else str_nat (nat \<lfloor>r\<rfloor>))"

text \<open>
  The state of a process after a listing by S has been posted and B has sent an offer of 90
  on it, and the state after B has sent an offer on a listing id X under which nothing is
  stored.
\<close>

definition listing_rec :: obj where
  "listing_rec =
     [(''id'', JStr ''LST-001''), (''title'', JStr ''Keyboard''), (''desc'', JStr []),
      (''price'', JNum 120), (''currency'', JStr ''TNK''), (''category'', JStr ''electronics''),
      (''tags'', JStr []), (''seller'', JStr ''S''), (''createdAt'', JNum 1),
      (''status'', JStr ''active'')]"

definition offer_rec :: "string \<Rightarrow> obj" where
  "offer_rec lid =
     [(''id'', JStr ''OFR-001''), (''listingId'', JStr lid), (''buyer'', JStr ''B''),
      (''amount'', JNum 90), (''note'', JStr []), (''status'', JStr ''pending''),
      (''createdAt'', JNum 2),
      (''history'', JArr [JObj [(''amount'', JNum 90), (''by'', JStr ''B''), (''at'', JNum 2)]])]"

definition listed_state :: state where
  "listed_state =
     \<lparr>listingSeq = 1, offerSeq = 1, dealSeq = 0, ruleSeq = 0,
      view = [''LST-001'' \<mapsto> listing_rec, ''LST-001:OFR-001'' \<mapsto> offer_rec ''LST-001'']\<rparr>"

definition orphan_offer_state :: state where
  "orphan_offer_state =
     \<lparr>listingSeq = 0, offerSeq = 1, dealSeq = 0, ruleSeq = 0,
      view = [''X:OFR-001'' \<mapsto> offer_rec ''X'']\<rparr>"

definition rule_rec :: obj where
  "rule_rec =
     [(''id'', JStr ''RULE-001''), (''owner'', JStr ''A:B''), (''type'', JStr ''auto_buy''),
      (''params'', JObj [(''max_price'', JNum 50)]), (''createdAt'', JNum 1)]"

definition ruled_state :: state where
  "ruled_state =
     \<lparr>listingSeq = 0, offerSeq = 0, dealSeq = 0, ruleSeq = 1,
      view = [''rule:A:B:RULE-001'' \<mapsto> rule_rec]\<rparr>"

definition e_rule_delete :: "string \<Rightarrow> string \<Rightarrow> rat \<Rightarrow> json" where
  "e_rule_delete owner rid ts = JObj [(''op'', JStr ''rule_delete''), (''ruleId'', JStr rid),
     (''owner'', JStr owner), (''ts'', JNum ts)]"

definition e_rule_set :: json where
  "e_rule_set = JObj [(''op'', JStr ''rule_set''), (''ruleType'', JStr ''auto_buy''),
     (''params'', JObj [(''max_price'', JNum 50)]), (''owner'', JStr ''A:B''), (''ts'', JNum 1)]"

section \<open>An invariant of the View about deals\<close>

text \<open>
  Four facts that hold of every state the contract reaches from the empty state: a key
  without a colon is a listing id or a deal id already allocated; a record whose status is
  pending lies under an offer key made from an allocated offer id; the record under a deal
  id names an offer key under which a record lies that is not pending; and two records
  under different deal ids never name the same listing id and offer id.
\<close>

definition inv_keys :: "view \<Rightarrow> nat \<Rightarrow> nat \<Rightarrow> bool" where
  "inv_keys v lseq dseq \<longleftrightarrow>
     (\<forall>k r. v k = Some r \<longrightarrow>
        CHR '':'' \<in> set k \<or> (\<exists>n\<le>lseq. k = nextId ''LST'' n) \<or> (\<exists>n\<le>dseq. k = nextId ''DEAL'' n))"

definition inv_pending :: "view \<Rightarrow> nat \<Rightarrow> bool" where
  "inv_pending v oseq \<longleftrightarrow>
     (\<forall>k r. v k = Some r \<longrightarrow> map_of r ''status'' = Some (JStr ''pending'') \<longrightarrow>
        (\<exists>a m. m \<le> oseq \<and> k = a @ '':'' @ nextId ''OFR'' m))"

definition inv_deals :: "numfmt \<Rightarrow> view \<Rightarrow> nat \<Rightarrow> bool" where
  "inv_deals ns v oseq \<longleftrightarrow>
     (\<forall>n r. v (nextId ''DEAL'' n) = Some r \<longrightarrow>
        (\<exists>a m ofr. m \<le> oseq \<and>
           offerKey ns (map_of r ''listingId'') (map_of r ''offerId'') =
             Inr (a @ '':'' @ nextId ''OFR'' m) \<and>
           v (a @ '':'' @ nextId ''OFR'' m) = Some ofr \<and>
           map_of ofr ''status'' \<noteq> Some (JStr ''pending'')))"

definition inv_unique :: "view \<Rightarrow> bool" where
  "inv_unique v \<longleftrightarrow>
     (\<forall>n1 n2 r1 r2.
        v (nextId ''DEAL'' n1) = Some r1 \<longrightarrow> v (nextId ''DEAL'' n2) = Some r2 \<longrightarrow>
        map_of r1 ''listingId'' = map_of r2 ''listingId'' \<longrightarrow>
        map_of r1 ''offerId'' = map_of r2 ''offerId'' \<longrightarrow> n1 = n2)"

definition deal_inv :: "numfmt \<Rightarrow> state \<Rightarrow> bool" where
  "deal_inv ns s \<longleftrightarrow>
     inv_keys (view s) (listingSeq s) (dealSeq s) \<and> inv_pending (view s) (offerSeq s) \<and>
     inv_deals ns (view s) (offerSeq s) \<and> inv_unique (view s)"

section \<open>Auxiliary facts\<close>

lemma apply_nodes_append:
  "apply_nodes ns (xs @ ys) s =
     (case apply_nodes ns xs s of Inl e \<Rightarrow> Inl e | Inr s' \<Rightarrow> apply_nodes ns ys s')"
proof (induction xs arbitrary: s)
  case Nil
  show ?case by simp
next
  case (Cons x xs)
  show ?case
  proof (cases x)
    case Undecodable
    with Cons show ?thesis by simp
  next
    case (Decoded entry)
    with Cons show ?thesis by (simp split: sum.splits)
  qed
qed

lemma apply_nodes_snoc:
  "apply_nodes ns xs s = Inr s' \<Longrightarrow>
   apply_nodes ns (xs @ [Decoded entry]) s = applyEntry ns entry s'"
  by (simp add: apply_nodes_append split: sum.splits)

lemma map_of_setProp: "map_of (setProp ob k v) = (map_of ob)(k := v)"
  by (cases v) (simp_all add: setProp_def update_conv' delete_conv')

lemma tmpl_JStr: "tmpl ns (Some (JStr x)) = Inr x"
  by (simp add: tmpl_def)

lemma map_of_mkObj:
  "distinct (map fst ps) \<Longrightarrow>
   map_of (mkObj ps) k = (case map_of ps k of None \<Rightarrow> None | Some v \<Rightarrow> v)"
proof (induction ps)
  case Nil
  show ?case by (simp add: mkObj_def map_filter_simps)
next
  case (Cons p ps)
  obtain a v where p: "p = (a, v)" by (cases p)
  from Cons have ih: "map_of (mkObj ps) k = (case map_of ps k of None \<Rightarrow> None | Some v \<Rightarrow> v)"
    by simp
  from Cons.prems p have notin: "a \<notin> fst ` set ps" by simp
  have cons: "mkObj (p # ps) = (case v of None \<Rightarrow> mkObj ps | Some j \<Rightarrow> (a, j) # mkObj ps)"
    by (simp add: mkObj_def map_filter_simps p split: option.splits)
  show ?case
  proof (cases v)
    case None
    have "map_of ps a = None" using notin by (simp add: map_of_eq_None_iff)
    with None p ih cons show ?thesis by simp
  next
    case (Some j)
    with p ih cons show ?thesis by simp
  qed
qed

lemma len10: "length ''0123456789'' = 10" by simp

lemma digit_in: "k < 10 \<Longrightarrow> ''0123456789'' ! k \<in> set ''0123456789''"
  by (rule nth_mem) (simp only: len10)

lemma str_nat_digits: "set (str_nat n) \<subseteq> set ''0123456789''"
proof (induction n rule: str_nat.induct)
  case (1 n)
  show ?case
  proof (cases "n < 10")
    case True
    have "str_nat n = [''0123456789'' ! n]" using True by (subst str_nat.simps) (simp only: if_True)
    then show ?thesis using digit_in [OF True] by simp
  next
    case False
    have e: "str_nat n = str_nat (n div 10) @ [''0123456789'' ! (n mod 10)]"
      using False by (subst str_nat.simps) (simp only: if_False)
    have m: "n mod 10 < 10" by simp
    have ih: "set (str_nat (n div 10)) \<subseteq> set ''0123456789''" using 1 [OF False] .
    show ?thesis unfolding e using ih digit_in [OF m] by simp
  qed
qed

lemma nextId_no_colon: "CHR '':'' \<notin> set prefix \<Longrightarrow> CHR '':'' \<notin> set (nextId prefix n)"
proof -
  assume p: "CHR '':'' \<notin> set prefix"
  have "CHR '':'' \<notin> set ''0123456789''" by simp
  then have "CHR '':'' \<notin> set (str_nat n)" using str_nat_digits [of n] by (rule contra_subsetD [rotated])
  with p show ?thesis by (simp add: nextId_def padStart3_def)
qed

lemma applyEntry_offer_accept:
  "fld entry ''op'' = Some (JStr ''offer_accept'') \<Longrightarrow>
   applyEntry ns entry s = offer_accept ns entry s"
  by (cases entry) (simp_all add: applyEntry_def)

lemma offerKey_JStr:
  "offerKey ns (Some (JStr lk)) oid = Inr key \<Longrightarrow> \<exists>b. key = lk @ '':'' @ b"
  by (auto simp: offerKey_def tmpl_JStr split: sum.splits)

lemma deal_record_fields:
  "map_of (deal_record dealId entry offer listing) ''id'' = Some (JStr dealId)"
  "map_of (deal_record dealId entry offer listing) ''listingId'' = fld entry ''listingId''"
  "map_of (deal_record dealId entry offer listing) ''offerId'' = fld entry ''offerId''"
  "map_of (deal_record dealId entry offer listing) ''listingTitle'' =
     js_or (map_of listing ''title'') (Some (JStr []))"
  "map_of (deal_record dealId entry offer listing) ''buyer'' = map_of offer ''buyer''"
  "map_of (deal_record dealId entry offer listing) ''seller'' =
     js_or (map_of listing ''seller'') (fld entry ''seller'')"
  "map_of (deal_record dealId entry offer listing) ''finalPrice'' = map_of offer ''amount''"
  "map_of (deal_record dealId entry offer listing) ''currency'' =
     js_or (map_of listing ''currency'') (Some (JStr ''TNK''))"
  "map_of (deal_record dealId entry offer listing) ''closedAt'' = fld entry ''ts''"
  unfolding deal_record_def by (simp_all add: map_of_mkObj)

lemma accepted_offer_fields:
  "map_of (accepted_offer entry offer) =
     (map_of offer)(''status'' \<mapsto> JStr ''accepted'',
                    ''acceptedAt'' := fld entry ''ts'',
                    ''acceptedBy'' := fld entry ''by'')"
  by (simp add: accepted_offer_def Let_def map_of_setProp)

lemma applyEntry_dispatch:
  "fld entry ''op'' = Some (JStr ''listing_update'') \<Longrightarrow>
     applyEntry ns entry s = listing_update entry s"
  "fld entry ''op'' = Some (JStr ''listing_remove'') \<Longrightarrow>
     applyEntry ns entry s = listing_remove entry s"
  "fld entry ''op'' = Some (JStr ''offer_counter'') \<Longrightarrow>
     applyEntry ns entry s = offer_counter ns entry s"
  "fld entry ''op'' = Some (JStr ''offer_decline'') \<Longrightarrow>
     applyEntry ns entry s = offer_decline ns entry s"
  "fld entry ''op'' = Some (JStr ''rule_delete'') \<Longrightarrow>
     applyEntry ns entry s = rule_delete ns entry s"
  by (cases entry; simp add: applyEntry_def)+

lemma listing_nonseller_noop:
  assumes "fld entry ''op'' = Some (JStr ''listing_update'') \<or>
           fld entry ''op'' = Some (JStr ''listing_remove'')"
    and "storeKey (fld entry ''id'') = Inr k"
    and "view s k = Some r"
    and "\<not> strictEq (map_of r ''seller'') (fld entry ''seller'')"
  shows "applyEntry ns entry s = Inr s"
  using assms
  by (auto simp: applyEntry_dispatch listing_update_def listing_remove_def)

lemma rule_nonowner_noop:
  assumes "fld entry ''op'' = Some (JStr ''rule_delete'')"
    and "ruleKey ns (fld entry ''owner'') (fld entry ''ruleId'') = Inr k"
    and "view s k = Some r"
    and "\<not> strictEq (map_of r ''owner'') (fld entry ''owner'')"
  shows "applyEntry ns entry s = Inr s"
  using assms by (simp add: applyEntry_dispatch rule_delete_def)

lemma view_update_neq: "v' \<noteq> view s \<Longrightarrow> s\<lparr>view := v'\<rparr> \<noteq> s"
proof
  assume n: "v' \<noteq> view s" and e: "s\<lparr>view := v'\<rparr> = s"
  from e have "view (s\<lparr>view := v'\<rparr>) = view s" by (rule arg_cong)
  then have "v' = view s" by simp
  with n show False by simp
qed

lemma put_changed_neq: "view s k = Some r \<Longrightarrow> r' \<noteq> r \<Longrightarrow> s\<lparr>view := (view s)(k \<mapsto> r')\<rparr> \<noteq> s"
proof (rule view_update_neq)
  assume a: "view s k = Some r" "r' \<noteq> r"
  show "(view s)(k \<mapsto> r') \<noteq> view s"
  proof
    assume "(view s)(k \<mapsto> r') = view s"
    then have "((view s)(k \<mapsto> r')) k = view s k" by (rule arg_cong)
    with a show False by simp
  qed
qed

lemma offer_decline_noop_iff:
  assumes key: "offerKey ns (fld entry ''listingId'') (fld entry ''offerId'') = Inr k"
  shows "offer_decline ns entry s = Inr s \<longleftrightarrow>
     (view s k = None \<or>
      (\<exists>r. view s k = Some r \<and> \<not> strictEq (map_of r ''status'') (Some (JStr ''pending''))))"
proof (cases "view s k")
  case None
  with key show ?thesis by (simp add: offer_decline_def)
next
  case (Some r)
  show ?thesis
  proof (cases "strictEq (map_of r ''status'') (Some (JStr ''pending''))")
    case False
    with key Some show ?thesis by (simp add: offer_decline_def)
  next
    case True
    let ?r' = "setProp (setProp (setProp r ''status'' (Some (JStr ''declined'')))
                 ''declinedAt'' (fld entry ''ts'')) ''declinedBy'' (fld entry ''by'')"
    have "map_of ?r' ''status'' = Some (JStr ''declined'')" by (simp add: map_of_setProp)
    moreover have "map_of r ''status'' \<noteq> Some (JStr ''declined'')" using True by auto
    ultimately have "?r' \<noteq> r" by metis
    then have "s\<lparr>view := (view s)(k \<mapsto> ?r')\<rparr> \<noteq> s" using Some by (rule put_changed_neq [rotated])
    with key Some True show ?thesis by (simp add: offer_decline_def Let_def)
  qed
qed

lemma dealSeq_update_neq: "s\<lparr>dealSeq := Suc (dealSeq s), view := v\<rparr> \<noteq> s"
proof
  assume e: "s\<lparr>dealSeq := Suc (dealSeq s), view := v\<rparr> = s"
  from e have "dealSeq (s\<lparr>dealSeq := Suc (dealSeq s), view := v\<rparr>) = dealSeq s" by (rule arg_cong)
  then show False by simp
qed

lemma offer_accept_noop_iff:
  assumes key: "offerKey ns (fld entry ''listingId'') (fld entry ''offerId'') = Inr k"
  shows "offer_accept ns entry s = Inr s \<longleftrightarrow>
     (view s k = None \<or>
      (\<exists>r. view s k = Some r \<and> \<not> strictEq (map_of r ''status'') (Some (JStr ''pending''))))"
proof (cases "view s k")
  case None
  with key show ?thesis by (simp add: offer_accept_def)
next
  case (Some r)
  show ?thesis
  proof (cases "strictEq (map_of r ''status'') (Some (JStr ''pending''))")
    case False
    with key Some show ?thesis by (simp add: offer_accept_def)
  next
    case True
    have "offer_accept ns entry s \<noteq> Inr s"
      unfolding offer_accept_def using key Some True
      by (simp add: Let_def dealSeq_update_neq split: sum.splits)
    with Some True show ?thesis by simp
  qed
qed

lemma offer_counter_noop_iff:
  assumes key: "offerKey ns (fld entry ''listingId'') (fld entry ''offerId'') = Inr k"
  shows "offer_counter ns entry s = Inr s \<longleftrightarrow>
     (view s k = None \<or>
      (\<exists>r. view s k = Some r \<and> \<not> strictEq (map_of r ''status'') (Some (JStr ''pending''))))"
proof (cases "view s k")
  case None
  with key show ?thesis by (simp add: offer_counter_def)
next
  case (Some r)
  show ?thesis
  proof (cases "strictEq (map_of r ''status'') (Some (JStr ''pending''))")
    case False
    with key Some show ?thesis by (simp add: offer_counter_def)
  next
    case True
    let ?o2 = "setProp (setProp r ''amount'' (fld entry ''amount'')) ''status'' (Some (JStr ''pending''))"
    let ?x = "JObj (mkObj [(''amount'', fld entry ''amount''), (''by'', fld entry ''by''),
                           (''at'', fld entry ''ts'')])"
    have hist: "map_of ?o2 ''history'' = map_of r ''history''" by (simp add: map_of_setProp)
    have "offer_counter ns entry s \<noteq> Inr s"
    proof (cases "\<exists>h. map_of r ''history'' = Some (JArr h)")
      case False
      then have "offer_counter ns entry s = Inl TypeError"
        unfolding offer_counter_def using key Some True hist
        by (simp add: Let_def split: option.splits json.splits)
      then show ?thesis by simp
    next
      case True
      then obtain h where h: "map_of r ''history'' = Some (JArr h)" by blast
      let ?o4 = "setProp (setProp ?o2 ''history'' (Some (JArr (h @ [?x])))) ''lastUpdated'' (fld entry ''ts'')"
      have "map_of ?o4 ''history'' = Some (JArr (h @ [?x]))" by (simp add: map_of_setProp)
      then have "map_of ?o4 ''history'' \<noteq> map_of r ''history''" using h by simp
      then have "?o4 \<noteq> r" by metis
      then have ne: "s\<lparr>view := (view s)(k \<mapsto> ?o4)\<rparr> \<noteq> s" using Some by (rule put_changed_neq [rotated])
      have "offer_counter ns entry s = Inr (s\<lparr>view := (view s)(k \<mapsto> ?o4)\<rparr>)"
        unfolding offer_counter_def using key Some \<open>strictEq _ _\<close> hist h
        by (simp add: Let_def)
      with ne show ?thesis by simp
    qed
    with Some True show ?thesis by simp
  qed
qed

text \<open>Identifiers are injective in the counter, and an offer key determines the counter it was made from.\<close>

lemma nat_of_digits_snoc: "nat_of_digits (ds @ [c]) = 10 * nat_of_digits ds + (of_char c - 48)"
  by (simp add: nat_of_digits_def)

lemma digit_value: "k < 10 \<Longrightarrow> (of_char (''0123456789'' ! k) :: nat) - 48 = k"
proof -
  assume "k < 10"
  then have "k = 0 \<or> k = 1 \<or> k = 2 \<or> k = 3 \<or> k = 4 \<or> k = 5 \<or> k = 6 \<or> k = 7 \<or>
    k = 8 \<or> k = 9"
    by arith
  then show ?thesis by (elim disjE) simp_all
qed

lemma nat_of_digits_str_nat: "nat_of_digits (str_nat n) = n"
proof (induction n rule: str_nat.induct)
  case (1 n)
  show ?case
  proof (cases "n < 10")
    case True
    have "str_nat n = [''0123456789'' ! n]" using True by (subst str_nat.simps) (simp only: if_True)
    then show ?thesis using digit_value [OF True] by (simp add: nat_of_digits_def)
  next
    case False
    have e: "str_nat n = str_nat (n div 10) @ [''0123456789'' ! (n mod 10)]"
      using False by (subst str_nat.simps) (simp only: if_False)
    have m: "n mod 10 < 10" by simp
    have ih: "nat_of_digits (str_nat (n div 10)) = n div 10" using 1 [OF False] .
    show ?thesis unfolding e nat_of_digits_snoc ih digit_value [OF m] by simp
  qed
qed

lemma nat_of_digits_zeros: "nat_of_digits (replicate j (CHR ''0'') @ ds) = nat_of_digits ds"
proof -
  have "foldl (\<lambda>a c. 10 * a + (of_char c - 48)) 0 (replicate j (CHR ''0'')) = (0::nat)"
    by (induction j) simp_all
  then show ?thesis by (simp add: nat_of_digits_def)
qed

lemma nextId_inj: "nextId p n = nextId p m \<Longrightarrow> n = m"
proof -
  assume "nextId p n = nextId p m"
  then have "padStart3 (str_nat n) = padStart3 (str_nat m)" by (simp add: nextId_def)
  then have "nat_of_digits (padStart3 (str_nat n)) = nat_of_digits (padStart3 (str_nat m))" by simp
  then show ?thesis by (simp add: padStart3_def nat_of_digits_zeros nat_of_digits_str_nat)
qed

lemma after_last:
  assumes "xs @ c # ds = ys @ c # es" and "c \<notin> set ds" and "c \<notin> set es"
  shows "ds = es"
proof -
  have "\<And>zs fs. c \<notin> set fs \<Longrightarrow> takeWhile (\<lambda>x. x \<noteq> c) (rev (zs @ c # fs)) = rev fs"
    by (simp only: rev_append rev.simps append_assoc append_Cons append_Nil)
       (subst takeWhile_append2, auto)
  then have "rev ds = rev es" using assms by metis
  then show ?thesis by simp
qed

lemma pad_no_dash: "CHR ''-'' \<notin> set (padStart3 (str_nat n))"
proof -
  have "CHR ''-'' \<notin> set ''0123456789''" by simp
  then have "CHR ''-'' \<notin> set (str_nat n)" using str_nat_digits [of n] by (rule contra_subsetD [rotated])
  then show ?thesis by (simp add: padStart3_def)
qed

lemma offer_key_inj:
  assumes "a @ '':'' @ nextId ''OFR'' m = b @ '':'' @ nextId ''OFR'' n"
  shows "m = n"
proof -
  have "(a @ '':OFR'') @ CHR ''-'' # padStart3 (str_nat m) =
        (b @ '':OFR'') @ CHR ''-'' # padStart3 (str_nat n)"
    using assms by (simp add: nextId_def)
  then have "padStart3 (str_nat m) = padStart3 (str_nat n)"
    by (rule after_last) (rule pad_no_dash)+
  then have "nextId ''OFR'' m = nextId ''OFR'' n" by (simp add: nextId_def)
  then show ?thesis by (rule nextId_inj)
qed

lemma deal_key_not_listing_key: "nextId ''DEAL'' n \<noteq> nextId ''LST'' m"
  by (simp add: nextId_def)

section \<open>The invariant about deals\<close>

lemma offer_key_not_deal_key: "a @ '':'' @ b \<noteq> nextId ''DEAL'' n"
proof
  assume e: "a @ '':'' @ b = nextId ''DEAL'' n"
  have nc: "CHR '':'' \<notin> set (nextId ''DEAL'' n)" by (rule nextId_no_colon) simp
  have "CHR '':'' \<in> set (a @ '':'' @ b)" by simp
  then have "CHR '':'' \<in> set (nextId ''DEAL'' n)" by (simp only: e [symmetric])
  with nc show False by simp
qed

text \<open>Rewriting a record under an existing key, keeping the ids it names and not making it pending.\<close>

lemma inv_keys_modify:
  "inv_keys v lseq dseq \<Longrightarrow> v k = Some r \<Longrightarrow> inv_keys (v(k \<mapsto> r')) lseq dseq"
  unfolding inv_keys_def by (metis fun_upd_apply)

lemma inv_pending_modify:
  assumes "inv_pending v oseq" and "v k = Some r"
    and "map_of r' ''status'' = Some (JStr ''pending'') \<Longrightarrow> map_of r ''status'' = Some (JStr ''pending'')"
  shows "inv_pending (v(k \<mapsto> r')) oseq"
  unfolding inv_pending_def
proof (intro allI impI)
  fix k' r0
  assume a: "(v(k \<mapsto> r')) k' = Some r0" "map_of r0 ''status'' = Some (JStr ''pending'')"
  show "\<exists>a m. m \<le> oseq \<and> k' = a @ '':'' @ nextId ''OFR'' m"
  proof (cases "k' = k")
    case True
    with a have "map_of r ''status'' = Some (JStr ''pending'')" using assms(3) by simp
    with assms(1,2) True show ?thesis unfolding inv_pending_def by blast
  next
    case False
    with a assms(1) show ?thesis unfolding inv_pending_def by simp
  qed
qed

lemma inv_unique_modify:
  assumes "inv_unique v" and "v k = Some r"
    and "map_of r' ''listingId'' = map_of r ''listingId''"
    and "map_of r' ''offerId'' = map_of r ''offerId''"
  shows "inv_unique (v(k \<mapsto> r'))"
  unfolding inv_unique_def
proof (intro allI impI)
  fix n1 n2 r1 r2
  assume a: "(v(k \<mapsto> r')) (nextId ''DEAL'' n1) = Some r1"
    "(v(k \<mapsto> r')) (nextId ''DEAL'' n2) = Some r2"
    "map_of r1 ''listingId'' = map_of r2 ''listingId''"
    "map_of r1 ''offerId'' = map_of r2 ''offerId''"
  have old: "\<And>n x. (v(k \<mapsto> r')) (nextId ''DEAL'' n) = Some x \<Longrightarrow>
     \<exists>y. v (nextId ''DEAL'' n) = Some y \<and> map_of y ''listingId'' = map_of x ''listingId'' \<and>
         map_of y ''offerId'' = map_of x ''offerId''"
    using assms(2,3,4) by (auto split: if_splits)
  obtain y1 where y1: "v (nextId ''DEAL'' n1) = Some y1"
    "map_of y1 ''listingId'' = map_of r1 ''listingId''" "map_of y1 ''offerId'' = map_of r1 ''offerId''"
    using old [OF a(1)] by blast
  obtain y2 where y2: "v (nextId ''DEAL'' n2) = Some y2"
    "map_of y2 ''listingId'' = map_of r2 ''listingId''" "map_of y2 ''offerId'' = map_of r2 ''offerId''"
    using old [OF a(2)] by blast
  show "n1 = n2"
    using assms(1) y1 y2 a(3,4) unfolding inv_unique_def by metis
qed

lemma inv_deals_modify:
  assumes "inv_deals ns v oseq" and "v k = Some r"
    and "map_of r' ''listingId'' = map_of r ''listingId''"
    and "map_of r' ''offerId'' = map_of r ''offerId''"
    and "map_of r' ''status'' = Some (JStr ''pending'') \<Longrightarrow> map_of r ''status'' = Some (JStr ''pending'')"
  shows "inv_deals ns (v(k \<mapsto> r')) oseq"
  unfolding inv_deals_def
proof (intro allI impI)
  fix n x
  assume a: "(v(k \<mapsto> r')) (nextId ''DEAL'' n) = Some x"
  have "\<exists>y. v (nextId ''DEAL'' n) = Some y \<and> map_of y ''listingId'' = map_of x ''listingId'' \<and>
         map_of y ''offerId'' = map_of x ''offerId''"
    using a assms(2,3,4) by (auto split: if_splits)
  then obtain y where y: "v (nextId ''DEAL'' n) = Some y"
    "map_of y ''listingId'' = map_of x ''listingId''" "map_of y ''offerId'' = map_of x ''offerId''"
    by blast
  obtain a0 m ofr where o: "m \<le> oseq"
    "offerKey ns (map_of y ''listingId'') (map_of y ''offerId'') = Inr (a0 @ '':'' @ nextId ''OFR'' m)"
    "v (a0 @ '':'' @ nextId ''OFR'' m) = Some ofr"
    "map_of ofr ''status'' \<noteq> Some (JStr ''pending'')"
    using assms(1) y(1) unfolding inv_deals_def by blast
  let ?K = "a0 @ '':'' @ nextId ''OFR'' m"
  have "\<exists>ofr'. (v(k \<mapsto> r')) ?K = Some ofr' \<and> map_of ofr' ''status'' \<noteq> Some (JStr ''pending'')"
  proof (cases "?K = k")
    case True
    then have "r = ofr" using assms(2) o(3) by simp
    then have "map_of r' ''status'' \<noteq> Some (JStr ''pending'')" using assms(5) o(4) by blast
    with True show ?thesis by simp
  next
    case False
    with o(3,4) show ?thesis by simp
  qed
  with o(1,2) y(2,3)
  show "\<exists>a m ofr. m \<le> oseq \<and>
           offerKey ns (map_of x ''listingId'') (map_of x ''offerId'') =
             Inr (a @ '':'' @ nextId ''OFR'' m) \<and>
           (v(k \<mapsto> r')) (a @ '':'' @ nextId ''OFR'' m) = Some ofr \<and>
           map_of ofr ''status'' \<noteq> Some (JStr ''pending'')"
    by metis
qed

text \<open>Storing a record that is not pending under a key that is not a deal id.\<close>

lemma inv_keys_put:
  assumes "inv_keys v lseq dseq" and "lseq \<le> lseq'" and "dseq \<le> dseq'"
    and "CHR '':'' \<in> set k \<or> (\<exists>n\<le>lseq'. k = nextId ''LST'' n) \<or> (\<exists>n\<le>dseq'. k = nextId ''DEAL'' n)"
  shows "inv_keys (v(k \<mapsto> r')) lseq' dseq'"
  unfolding inv_keys_def
proof (intro allI impI)
  fix k' r0
  assume a: "(v(k \<mapsto> r')) k' = Some r0"
  show "CHR '':'' \<in> set k' \<or> (\<exists>n\<le>lseq'. k' = nextId ''LST'' n) \<or> (\<exists>n\<le>dseq'. k' = nextId ''DEAL'' n)"
  proof (cases "k' = k")
    case True
    with assms(4) show ?thesis by simp
  next
    case False
    with a have "v k' = Some r0" by simp
    then have "CHR '':'' \<in> set k' \<or> (\<exists>n\<le>lseq. k' = nextId ''LST'' n) \<or> (\<exists>n\<le>dseq. k' = nextId ''DEAL'' n)"
      using assms(1) unfolding inv_keys_def by blast
    then show ?thesis
    proof (elim disjE exE conjE)
      assume "CHR '':'' \<in> set k'"
      then show ?thesis by simp
    next
      fix n
      assume "n \<le> lseq" "k' = nextId ''LST'' n"
      then have "n \<le> lseq' \<and> k' = nextId ''LST'' n" using assms(2) by simp
      then show ?thesis by blast
    next
      fix n
      assume "n \<le> dseq" "k' = nextId ''DEAL'' n"
      then have "n \<le> dseq' \<and> k' = nextId ''DEAL'' n" using assms(3) by simp
      then show ?thesis by blast
    qed
  qed
qed

lemma inv_pending_put:
  assumes "inv_pending v oseq" and "oseq \<le> oseq'"
    and "map_of r' ''status'' = Some (JStr ''pending'') \<Longrightarrow>
         \<exists>a m. m \<le> oseq' \<and> k = a @ '':'' @ nextId ''OFR'' m"
  shows "inv_pending (v(k \<mapsto> r')) oseq'"
  unfolding inv_pending_def
proof (intro allI impI)
  fix k' r0
  assume a: "(v(k \<mapsto> r')) k' = Some r0" "map_of r0 ''status'' = Some (JStr ''pending'')"
  show "\<exists>a m. m \<le> oseq' \<and> k' = a @ '':'' @ nextId ''OFR'' m"
  proof (cases "k' = k")
    case True
    with a assms(3) show ?thesis by simp
  next
    case False
    with a have "v k' = Some r0" by simp
    then have "\<exists>a m. m \<le> oseq \<and> k' = a @ '':'' @ nextId ''OFR'' m"
      using assms(1) a(2) unfolding inv_pending_def by blast
    then obtain a0 m0 where "m0 \<le> oseq" "k' = a0 @ '':'' @ nextId ''OFR'' m0" by blast
    then have "m0 \<le> oseq' \<and> k' = a0 @ '':'' @ nextId ''OFR'' m0" using assms(2) by simp
    then show ?thesis by blast
  qed
qed

lemma inv_unique_put:
  assumes "inv_unique v" and "\<And>n. k \<noteq> nextId ''DEAL'' n"
  shows "inv_unique (v(k \<mapsto> r'))"
proof -
  have e: "\<And>n. (v(k \<mapsto> r')) (nextId ''DEAL'' n) = v (nextId ''DEAL'' n)"
    using assms(2) by (metis fun_upd_other)
  show ?thesis using assms(1) unfolding inv_unique_def e .
qed

lemma inv_deals_put:
  assumes "inv_deals ns v oseq" and "oseq \<le> oseq'" and "\<And>n. k \<noteq> nextId ''DEAL'' n"
    and "map_of r' ''status'' = Some (JStr ''pending'') \<Longrightarrow>
         \<forall>a m. m \<le> oseq \<longrightarrow> k \<noteq> a @ '':'' @ nextId ''OFR'' m"
  shows "inv_deals ns (v(k \<mapsto> r')) oseq'"
  unfolding inv_deals_def
proof (intro allI impI)
  fix n x
  assume "(v(k \<mapsto> r')) (nextId ''DEAL'' n) = Some x"
  then have x: "v (nextId ''DEAL'' n) = Some x" using assms(3) [of n] by (metis fun_upd_other)
  obtain a0 m ofr where o: "m \<le> oseq"
    "offerKey ns (map_of x ''listingId'') (map_of x ''offerId'') = Inr (a0 @ '':'' @ nextId ''OFR'' m)"
    "v (a0 @ '':'' @ nextId ''OFR'' m) = Some ofr"
    "map_of ofr ''status'' \<noteq> Some (JStr ''pending'')"
    using assms(1) x unfolding inv_deals_def by blast
  let ?K = "a0 @ '':'' @ nextId ''OFR'' m"
  have "\<exists>ofr'. (v(k \<mapsto> r')) ?K = Some ofr' \<and> map_of ofr' ''status'' \<noteq> Some (JStr ''pending'')"
  proof (cases "?K = k")
    case True
    then have "map_of r' ''status'' \<noteq> Some (JStr ''pending'')"
      using assms(4) o(1) by blast
    with True show ?thesis by simp
  next
    case False
    with o(3,4) show ?thesis by simp
  qed
  moreover have "m \<le> oseq'" using o(1) assms(2) by simp
  ultimately
  show "\<exists>a m ofr. m \<le> oseq' \<and>
           offerKey ns (map_of x ''listingId'') (map_of x ''offerId'') =
             Inr (a @ '':'' @ nextId ''OFR'' m) \<and>
           (v(k \<mapsto> r')) (a @ '':'' @ nextId ''OFR'' m) = Some ofr \<and>
           map_of ofr ''status'' \<noteq> Some (JStr ''pending'')"
    using o(2) by metis
qed

text \<open>Storing a new deal under the next deal id.\<close>

lemma deal_id_free:
  assumes "inv_keys v lseq dseq"
  shows "v (nextId ''DEAL'' (Suc dseq)) = None"
proof (rule ccontr)
  assume "v (nextId ''DEAL'' (Suc dseq)) \<noteq> None"
  then obtain r where "v (nextId ''DEAL'' (Suc dseq)) = Some r" by blast
  then have "CHR '':'' \<in> set (nextId ''DEAL'' (Suc dseq)) \<or>
     (\<exists>n\<le>lseq. nextId ''DEAL'' (Suc dseq) = nextId ''LST'' n) \<or>
     (\<exists>n\<le>dseq. nextId ''DEAL'' (Suc dseq) = nextId ''DEAL'' n)"
    using assms unfolding inv_keys_def by blast
  moreover have "CHR '':'' \<notin> set (nextId ''DEAL'' (Suc dseq))" by (rule nextId_no_colon) simp
  moreover have "\<And>n. nextId ''DEAL'' (Suc dseq) \<noteq> nextId ''LST'' n" by (rule deal_key_not_listing_key)
  moreover have "\<And>n. n \<le> dseq \<Longrightarrow> nextId ''DEAL'' (Suc dseq) \<noteq> nextId ''DEAL'' n"
    using nextId_inj by fastforce
  ultimately show False by blast
qed

lemma inv_new_deal:
  assumes k: "inv_keys v lseq dseq" and p: "inv_pending v oseq"
    and d: "inv_deals ns v oseq" and u: "inv_unique v"
    and key: "offerKey ns (map_of dl ''listingId'') (map_of dl ''offerId'') =
                Inr (a @ '':'' @ nextId ''OFR'' m)"
    and m: "m \<le> oseq"
    and ofr: "v (a @ '':'' @ nextId ''OFR'' m) = Some ofr"
             "map_of ofr ''status'' \<noteq> Some (JStr ''pending'')"
    and fresh: "\<And>n r. v (nextId ''DEAL'' n) = Some r \<Longrightarrow>
                  \<not> (map_of r ''listingId'' = map_of dl ''listingId'' \<and>
                     map_of r ''offerId'' = map_of dl ''offerId'')"
    and st: "map_of dl ''status'' \<noteq> Some (JStr ''pending'')"
  shows "inv_keys (v(nextId ''DEAL'' (Suc dseq) \<mapsto> dl)) lseq (Suc dseq) \<and>
         inv_pending (v(nextId ''DEAL'' (Suc dseq) \<mapsto> dl)) oseq \<and>
         inv_deals ns (v(nextId ''DEAL'' (Suc dseq) \<mapsto> dl)) oseq \<and>
         inv_unique (v(nextId ''DEAL'' (Suc dseq) \<mapsto> dl))"
proof (intro conjI)
  let ?D = "nextId ''DEAL'' (Suc dseq)"
  let ?v = "v(?D \<mapsto> dl)"
  show "inv_keys ?v lseq (Suc dseq)"
    using k by (rule inv_keys_put) auto
  show "inv_pending ?v oseq"
    by (rule inv_pending_put [OF p le_refl]) (simp add: st)
  have colon: "\<And>b c. b @ '':'' @ c \<noteq> ?D" by (rule offer_key_not_deal_key)
  show "inv_deals ns ?v oseq"
    unfolding inv_deals_def
  proof (intro allI impI)
    fix n x
    assume a: "?v (nextId ''DEAL'' n) = Some x"
    show "\<exists>a m ofr. m \<le> oseq \<and>
           offerKey ns (map_of x ''listingId'') (map_of x ''offerId'') =
             Inr (a @ '':'' @ nextId ''OFR'' m) \<and>
           ?v (a @ '':'' @ nextId ''OFR'' m) = Some ofr \<and>
           map_of ofr ''status'' \<noteq> Some (JStr ''pending'')"
    proof (cases "nextId ''DEAL'' n = ?D")
      case True
      with a have "x = dl" by simp
      moreover have "?v (a @ '':'' @ nextId ''OFR'' m) = Some ofr" using ofr(1) colon by simp
      ultimately show ?thesis using key m ofr(2) by blast
    next
      case False
      with a have "v (nextId ''DEAL'' n) = Some x" by simp
      then obtain a0 m0 o0 where o: "m0 \<le> oseq"
        "offerKey ns (map_of x ''listingId'') (map_of x ''offerId'') =
           Inr (a0 @ '':'' @ nextId ''OFR'' m0)"
        "v (a0 @ '':'' @ nextId ''OFR'' m0) = Some o0"
        "map_of o0 ''status'' \<noteq> Some (JStr ''pending'')"
        using d unfolding inv_deals_def by blast
      have "?v (a0 @ '':'' @ nextId ''OFR'' m0) = Some o0" using o(3) colon by simp
      with o(1,2,4) show ?thesis by blast
    qed
  qed
  show "inv_unique ?v"
    unfolding inv_unique_def
  proof (intro allI impI)
    fix n1 n2 r1 r2
    assume a: "?v (nextId ''DEAL'' n1) = Some r1" "?v (nextId ''DEAL'' n2) = Some r2"
      "map_of r1 ''listingId'' = map_of r2 ''listingId''"
      "map_of r1 ''offerId'' = map_of r2 ''offerId''"
    show "n1 = n2"
    proof (cases "nextId ''DEAL'' n1 = ?D")
      case T1: True
      show ?thesis
      proof (cases "nextId ''DEAL'' n2 = ?D")
        case True
        with T1 have "nextId ''DEAL'' n1 = nextId ''DEAL'' n2" by simp
        then show ?thesis by (rule nextId_inj)
      next
        case False
        with a(2) have "v (nextId ''DEAL'' n2) = Some r2" by simp
        moreover have "r1 = dl" using a(1) T1 by simp
        ultimately show ?thesis using fresh [of n2 r2] a(3,4) by simp
      qed
    next
      case F1: False
      with a(1) have v1: "v (nextId ''DEAL'' n1) = Some r1" by simp
      show ?thesis
      proof (cases "nextId ''DEAL'' n2 = ?D")
        case True
        then have "r2 = dl" using a(2) by simp
        then show ?thesis using fresh [of n1 r1] v1 a(3,4) by simp
      next
        case False
        with a(2) have "v (nextId ''DEAL'' n2) = Some r2" by simp
        with v1 a(3,4) u show ?thesis unfolding inv_unique_def by blast
      qed
    qed
  qed
qed

text \<open>The same facts for states, in the three shapes a step of the contract has.\<close>

lemma deal_inv_modify:
  assumes "deal_inv ns s" and "view s k = Some r"
    and "view s' = (view s)(k \<mapsto> r')"
    and "listingSeq s' = listingSeq s" and "offerSeq s' = offerSeq s" and "dealSeq s' = dealSeq s"
    and "map_of r' ''listingId'' = map_of r ''listingId''"
    and "map_of r' ''offerId'' = map_of r ''offerId''"
    and "map_of r' ''status'' = Some (JStr ''pending'') \<Longrightarrow> map_of r ''status'' = Some (JStr ''pending'')"
  shows "deal_inv ns s'"
proof -
  have k: "inv_keys (view s) (listingSeq s) (dealSeq s)" and p: "inv_pending (view s) (offerSeq s)"
    and d: "inv_deals ns (view s) (offerSeq s)" and u: "inv_unique (view s)"
    using assms(1) unfolding deal_inv_def by simp_all
  have "inv_keys ((view s)(k \<mapsto> r')) (listingSeq s) (dealSeq s)"
    using k assms(2) by (rule inv_keys_modify)
  moreover have "inv_pending ((view s)(k \<mapsto> r')) (offerSeq s)"
    using p assms(2,9) by (rule inv_pending_modify)
  moreover have "inv_deals ns ((view s)(k \<mapsto> r')) (offerSeq s)"
    using d assms(2,7,8,9) by (rule inv_deals_modify)
  moreover have "inv_unique ((view s)(k \<mapsto> r'))"
    using u assms(2,7,8) by (rule inv_unique_modify)
  ultimately show ?thesis unfolding deal_inv_def assms(3,4,5,6) by simp
qed

lemma deal_inv_put:
  assumes "deal_inv ns s"
    and "view s' = (view s)(k \<mapsto> r')"
    and "listingSeq s \<le> listingSeq s'" and "offerSeq s' = offerSeq s" and "dealSeq s' = dealSeq s"
    and "CHR '':'' \<in> set k \<or> (\<exists>n\<le>listingSeq s'. k = nextId ''LST'' n)"
    and "\<And>n. k \<noteq> nextId ''DEAL'' n"
    and "map_of r' ''status'' \<noteq> Some (JStr ''pending'')"
  shows "deal_inv ns s'"
proof -
  have k: "inv_keys (view s) (listingSeq s) (dealSeq s)" and p: "inv_pending (view s) (offerSeq s)"
    and d: "inv_deals ns (view s) (offerSeq s)" and u: "inv_unique (view s)"
    using assms(1) unfolding deal_inv_def by simp_all
  have "inv_keys ((view s)(k \<mapsto> r')) (listingSeq s') (dealSeq s)"
    using k assms(3) le_refl by (rule inv_keys_put) (use assms(6) in blast)
  moreover have "inv_pending ((view s)(k \<mapsto> r')) (offerSeq s)"
    by (rule inv_pending_put [OF p le_refl]) (simp add: assms(8))
  moreover have "inv_deals ns ((view s)(k \<mapsto> r')) (offerSeq s)"
    by (rule inv_deals_put [OF d le_refl assms(7)]) (simp add: assms(8))
  moreover have "inv_unique ((view s)(k \<mapsto> r'))"
    by (rule inv_unique_put [OF u assms(7)])
  ultimately show ?thesis unfolding deal_inv_def assms(2,4,5) by simp
qed

lemma deal_inv_send:
  assumes "deal_inv ns s"
    and "view s' = (view s)(a @ '':'' @ nextId ''OFR'' (Suc (offerSeq s)) \<mapsto> r')"
    and "listingSeq s' = listingSeq s" and "offerSeq s' = Suc (offerSeq s)"
    and "dealSeq s' = dealSeq s"
  shows "deal_inv ns s'"
proof -
  let ?k = "a @ '':'' @ nextId ''OFR'' (Suc (offerSeq s))"
  have k: "inv_keys (view s) (listingSeq s) (dealSeq s)" and p: "inv_pending (view s) (offerSeq s)"
    and d: "inv_deals ns (view s) (offerSeq s)" and u: "inv_unique (view s)"
    using assms(1) unfolding deal_inv_def by simp_all
  have nd: "\<And>n. ?k \<noteq> nextId ''DEAL'' n" by (rule offer_key_not_deal_key)
  have "inv_keys ((view s)(?k \<mapsto> r')) (listingSeq s) (dealSeq s)"
    using k le_refl le_refl by (rule inv_keys_put) simp
  moreover have "inv_pending ((view s)(?k \<mapsto> r')) (Suc (offerSeq s))"
    by (rule inv_pending_put [OF p]) auto
  moreover have "inv_deals ns ((view s)(?k \<mapsto> r')) (Suc (offerSeq s))"
  proof (rule inv_deals_put [OF d _ nd])
    show "offerSeq s \<le> Suc (offerSeq s)" by simp
    show "\<forall>b m. m \<le> offerSeq s \<longrightarrow> ?k \<noteq> b @ '':'' @ nextId ''OFR'' m"
    proof (intro allI impI notI)
      fix b m
      assume "m \<le> offerSeq s" "?k = b @ '':'' @ nextId ''OFR'' m"
      then show False using offer_key_inj [of a "Suc (offerSeq s)" b m] by simp
    qed
  qed
  moreover have "inv_unique ((view s)(?k \<mapsto> r'))"
    by (rule inv_unique_put [OF u nd])
  ultimately show ?thesis unfolding deal_inv_def assms(2,3,4,5) by simp
qed

text \<open>Every case of the switch keeps the invariant.\<close>

lemma listing_post_inv:
  assumes "listing_post entry s = Inr s'" and "deal_inv ns s"
  shows "deal_inv ns s'"
proof -
  let ?k = "nextId ''LST'' (Suc (listingSeq s))"
  have s': "s' = s\<lparr>listingSeq := Suc (listingSeq s),
                    view := (view s)(?k \<mapsto> listing_record ?k entry)\<rparr>"
    using assms(1) by (simp add: listing_post_def Let_def)
  have st: "map_of (listing_record ?k entry) ''status'' = Some (JStr ''active'')"
    by (simp add: listing_record_def map_of_mkObj)
  show ?thesis
  proof (rule deal_inv_put [OF assms(2)])
    show "view s' = (view s)(?k \<mapsto> listing_record ?k entry)" by (simp add: s')
    show "listingSeq s \<le> listingSeq s'" by (simp add: s')
    show "offerSeq s' = offerSeq s" by (simp add: s')
    show "dealSeq s' = dealSeq s" by (simp add: s')
    show "CHR '':'' \<in> set ?k \<or> (\<exists>n\<le>listingSeq s'. ?k = nextId ''LST'' n)"
      by (rule disjI2) (auto simp: s')
    show "\<And>n. ?k \<noteq> nextId ''DEAL'' n" using deal_key_not_listing_key by metis
    show "map_of (listing_record ?k entry) ''status'' \<noteq> Some (JStr ''pending'')"
      by (simp add: st)
  qed
qed

lemma ruleKey_colon: "ruleKey ns owner rid = Inr key \<Longrightarrow> CHR '':'' \<in> set key"
  by (auto simp: ruleKey_def split: sum.splits)

lemma colon_not_deal_key: "CHR '':'' \<in> set k \<Longrightarrow> k \<noteq> nextId ''DEAL'' n"
proof
  assume "CHR '':'' \<in> set k" "k = nextId ''DEAL'' n"
  then have "CHR '':'' \<in> set (nextId ''DEAL'' n)" by simp
  moreover have "CHR '':'' \<notin> set (nextId ''DEAL'' n)" by (rule nextId_no_colon) simp
  ultimately show False by simp
qed

lemma rule_set_inv:
  assumes "rule_set ns entry s = Inr s'" and "deal_inv ns s"
  shows "deal_inv ns s'"
proof -
  let ?id = "nextId ''RULE'' (Suc (ruleSeq s))"
  obtain key where key: "ruleKey ns (fld entry ''owner'') (Some (JStr ?id)) = Inr key"
    using assms(1) by (cases "ruleKey ns (fld entry ''owner'') (Some (JStr ?id))")
      (simp_all add: rule_set_def Let_def)
  have s': "s' = s\<lparr>ruleSeq := Suc (ruleSeq s), view := (view s)(key \<mapsto> rule_record ?id entry)\<rparr>"
    using assms(1) key by (simp add: rule_set_def Let_def)
  have c: "CHR '':'' \<in> set key" using key by (rule ruleKey_colon)
  show ?thesis
  proof (rule deal_inv_put [OF assms(2)])
    show "view s' = (view s)(key \<mapsto> rule_record ?id entry)" by (simp add: s')
    show "listingSeq s \<le> listingSeq s'" by (simp add: s')
    show "offerSeq s' = offerSeq s" by (simp add: s')
    show "dealSeq s' = dealSeq s" by (simp add: s')
    show "CHR '':'' \<in> set key \<or> (\<exists>n\<le>listingSeq s'. key = nextId ''LST'' n)" using c by simp
    show "\<And>n. key \<noteq> nextId ''DEAL'' n" using c by (rule colon_not_deal_key)
    show "map_of (rule_record ?id entry) ''status'' \<noteq> Some (JStr ''pending'')"
      by (simp add: rule_record_def map_of_mkObj)
  qed
qed

lemma offer_send_inv:
  assumes "offer_send ns entry s = Inr s'" and "deal_inv ns s"
  shows "deal_inv ns s'"
proof -
  let ?id = "nextId ''OFR'' (Suc (offerSeq s))"
  obtain key where key: "offerKey ns (fld entry ''listingId'') (Some (JStr ?id)) = Inr key"
    using assms(1) by (cases "offerKey ns (fld entry ''listingId'') (Some (JStr ?id))")
      (simp_all add: offer_send_def Let_def)
  have s': "s' = s\<lparr>offerSeq := Suc (offerSeq s), view := (view s)(key \<mapsto> offer_record ?id entry)\<rparr>"
    using assms(1) key by (simp add: offer_send_def Let_def)
  obtain a where a: "key = a @ '':'' @ ?id"
    using key by (auto simp: offerKey_def tmpl_JStr split: sum.splits)
  show ?thesis
  proof (rule deal_inv_send [OF assms(2)])
    show "view s' = (view s)(a @ '':'' @ ?id \<mapsto> offer_record ?id entry)" by (simp add: s' a)
    show "listingSeq s' = listingSeq s" by (simp add: s')
    show "offerSeq s' = Suc (offerSeq s)" by (simp add: s')
    show "dealSeq s' = dealSeq s" by (simp add: s')
  qed
qed

lemma listing_update_inv:
  assumes "listing_update entry s = Inr s'" and "deal_inv ns s"
  shows "deal_inv ns s'"
proof -
  obtain k where k: "storeKey (fld entry ''id'') = Inr k"
    using assms(1) by (cases "storeKey (fld entry ''id'')") (simp_all add: listing_update_def)
  show ?thesis
  proof (cases "view s k")
    case None
    then have "s' = s" using assms(1) k by (simp add: listing_update_def)
    with assms(2) show ?thesis by simp
  next
    case (Some r)
    show ?thesis
    proof (cases "strictEq (map_of r ''seller'') (fld entry ''seller'')")
      case False
      then have "s' = s" using assms(1) k Some by (simp add: listing_update_def)
      with assms(2) show ?thesis by simp
    next
      case True
      let ?l1 = "if fld entry ''price'' \<noteq> None then setProp r ''price'' (fld entry ''price'') else r"
      let ?l2 = "if fld entry ''desc'' \<noteq> None then setProp ?l1 ''desc'' (fld entry ''desc'') else ?l1"
      let ?l3 = "setProp ?l2 ''updatedAt'' (fld entry ''ts'')"
      have s': "s' = s\<lparr>view := (view s)(k \<mapsto> ?l3)\<rparr>"
        using assms(1) k Some True by (auto simp: listing_update_def Let_def)
      show ?thesis
        by (rule deal_inv_modify [OF assms(2) Some, where r' = ?l3])
           (auto simp: s' map_of_setProp split: if_splits)
    qed
  qed
qed

lemma listing_remove_inv:
  assumes "listing_remove entry s = Inr s'" and "deal_inv ns s"
  shows "deal_inv ns s'"
proof -
  obtain k where k: "storeKey (fld entry ''id'') = Inr k"
    using assms(1) by (cases "storeKey (fld entry ''id'')") (simp_all add: listing_remove_def)
  show ?thesis
  proof (cases "view s k")
    case None
    then have "s' = s" using assms(1) k by (simp add: listing_remove_def)
    with assms(2) show ?thesis by simp
  next
    case (Some r)
    show ?thesis
    proof (cases "strictEq (map_of r ''seller'') (fld entry ''seller'')")
      case False
      then have "s' = s" using assms(1) k Some by (simp add: listing_remove_def)
      with assms(2) show ?thesis by simp
    next
      case True
      let ?l2 = "setProp (setProp r ''status'' (Some (JStr ''removed''))) ''removedAt'' (fld entry ''ts'')"
      have s': "s' = s\<lparr>view := (view s)(k \<mapsto> ?l2)\<rparr>"
        using assms(1) k Some True by (simp add: listing_remove_def Let_def)
      show ?thesis
        by (rule deal_inv_modify [OF assms(2) Some, where r' = ?l2])
           (simp_all add: s' map_of_setProp)
    qed
  qed
qed

lemma rule_delete_inv:
  assumes "rule_delete ns entry s = Inr s'" and "deal_inv ns s"
  shows "deal_inv ns s'"
proof -
  obtain k where k: "ruleKey ns (fld entry ''owner'') (fld entry ''ruleId'') = Inr k"
    using assms(1) by (cases "ruleKey ns (fld entry ''owner'') (fld entry ''ruleId'')")
      (simp_all add: rule_delete_def)
  show ?thesis
  proof (cases "view s k")
    case None
    then have "s' = s" using assms(1) k by (simp add: rule_delete_def)
    with assms(2) show ?thesis by simp
  next
    case (Some r)
    show ?thesis
    proof (cases "strictEq (map_of r ''owner'') (fld entry ''owner'')")
      case False
      then have "s' = s" using assms(1) k Some by (simp add: rule_delete_def)
      with assms(2) show ?thesis by simp
    next
      case True
      let ?r' = "setProp r ''deleted'' (Some (JBool True))"
      have s': "s' = s\<lparr>view := (view s)(k \<mapsto> ?r')\<rparr>"
        using assms(1) k Some True by (simp add: rule_delete_def)
      show ?thesis
        by (rule deal_inv_modify [OF assms(2) Some, where r' = ?r'])
           (simp_all add: s' map_of_setProp)
    qed
  qed
qed

lemma strictEq_pending:
  "strictEq v (Some (JStr ''pending'')) \<longleftrightarrow> v = Some (JStr ''pending'')"
  by (cases "(v, Some (JStr ''pending''))" rule: strictEq.cases) auto

lemma offer_decline_inv:
  assumes "offer_decline ns entry s = Inr s'" and "deal_inv ns s"
  shows "deal_inv ns s'"
proof -
  obtain k where k: "offerKey ns (fld entry ''listingId'') (fld entry ''offerId'') = Inr k"
    using assms(1) by (cases "offerKey ns (fld entry ''listingId'') (fld entry ''offerId'')")
      (simp_all add: offer_decline_def)
  show ?thesis
  proof (cases "view s k")
    case None
    then have "s' = s" using assms(1) k by (simp add: offer_decline_def)
    with assms(2) show ?thesis by simp
  next
    case (Some r)
    show ?thesis
    proof (cases "strictEq (map_of r ''status'') (Some (JStr ''pending''))")
      case False
      then have "s' = s" using assms(1) k Some by (simp add: offer_decline_def)
      with assms(2) show ?thesis by simp
    next
      case True
      let ?r' = "setProp (setProp (setProp r ''status'' (Some (JStr ''declined'')))
                   ''declinedAt'' (fld entry ''ts'')) ''declinedBy'' (fld entry ''by'')"
      have s': "s' = s\<lparr>view := (view s)(k \<mapsto> ?r')\<rparr>"
        using assms(1) k Some True by (simp add: offer_decline_def Let_def)
      show ?thesis
        by (rule deal_inv_modify [OF assms(2) Some, where r' = ?r'])
           (simp_all add: s' map_of_setProp)
    qed
  qed
qed

lemma offer_counter_inv:
  assumes "offer_counter ns entry s = Inr s'" and "deal_inv ns s"
  shows "deal_inv ns s'"
proof -
  obtain k where k: "offerKey ns (fld entry ''listingId'') (fld entry ''offerId'') = Inr k"
    using assms(1) by (cases "offerKey ns (fld entry ''listingId'') (fld entry ''offerId'')")
      (simp_all add: offer_counter_def)
  show ?thesis
  proof (cases "view s k")
    case None
    then have "s' = s" using assms(1) k by (simp add: offer_counter_def)
    with assms(2) show ?thesis by simp
  next
    case (Some r)
    show ?thesis
    proof (cases "strictEq (map_of r ''status'') (Some (JStr ''pending''))")
      case False
      then have "s' = s" using assms(1) k Some by (simp add: offer_counter_def)
      with assms(2) show ?thesis by simp
    next
      case True
      then have pend: "map_of r ''status'' = Some (JStr ''pending'')"
        by (simp add: strictEq_pending)
      let ?o2 = "setProp (setProp r ''amount'' (fld entry ''amount'')) ''status'' (Some (JStr ''pending''))"
      have hist: "map_of ?o2 ''history'' = map_of r ''history''" by (simp add: map_of_setProp)
      obtain h where h: "map_of r ''history'' = Some (JArr h)"
        using assms(1) k Some True hist
        by (auto simp: offer_counter_def Let_def split: option.splits json.splits)
      let ?x = "JObj (mkObj [(''amount'', fld entry ''amount''), (''by'', fld entry ''by''),
                             (''at'', fld entry ''ts'')])"
      let ?o4 = "setProp (setProp ?o2 ''history'' (Some (JArr (h @ [?x])))) ''lastUpdated'' (fld entry ''ts'')"
      have s': "s' = s\<lparr>view := (view s)(k \<mapsto> ?o4)\<rparr>"
        using assms(1) k Some True hist h by (simp add: offer_counter_def Let_def)
      show ?thesis
        by (rule deal_inv_modify [OF assms(2) Some, where r' = ?o4])
           (simp_all add: s' map_of_setProp pend)
    qed
  qed
qed

lemma deal_record_no_status: "map_of (deal_record dealId entry offer listing) ''status'' = None"
  unfolding deal_record_def by (simp add: map_of_mkObj)

lemma sold_listing_fields:
  "map_of (sold_listing dealId entry l) ''listingId'' = map_of l ''listingId''"
  "map_of (sold_listing dealId entry l) ''offerId'' = map_of l ''offerId''"
  "map_of (sold_listing dealId entry l) ''status'' = Some (JStr ''sold'')"
  by (simp_all add: sold_listing_def Let_def map_of_setProp)

lemma storeKey_JStr: "storeKey v = Inr k \<Longrightarrow> v = Some (JStr k)"
  by (auto simp: storeKey_def split: option.splits json.splits)

lemma offer_accept_inv:
  assumes run: "offer_accept ns entry s = Inr s'" and inv: "deal_inv ns s"
  shows "deal_inv ns s'"
proof -
  obtain K where K: "offerKey ns (fld entry ''listingId'') (fld entry ''offerId'') = Inr K"
    using run by (cases "offerKey ns (fld entry ''listingId'') (fld entry ''offerId'')")
      (simp_all add: offer_accept_def)
  show ?thesis
  proof (cases "view s K")
    case None
    then have "s' = s" using run K by (simp add: offer_accept_def)
    with inv show ?thesis by simp
  next
    case (Some offer)
    show ?thesis
    proof (cases "strictEq (map_of offer ''status'') (Some (JStr ''pending''))")
      case False
      then have "s' = s" using run K Some by (simp add: offer_accept_def)
      with inv show ?thesis by simp
    next
      case True
      then have pend: "map_of offer ''status'' = Some (JStr ''pending'')"
        by (simp add: strictEq_pending)
      obtain lk where lk: "storeKey (fld entry ''listingId'') = Inr lk"
        using run K Some True by (cases "storeKey (fld entry ''listingId'')")
          (simp_all add: offer_accept_def Let_def)
      have lid: "fld entry ''listingId'' = Some (JStr lk)" using lk by (rule storeKey_JStr)
      have "offerKey ns (Some (JStr lk)) (fld entry ''offerId'') = Inr K" using K lid by simp
      then obtain b where Kb: "K = lk @ '':'' @ b" by (blast dest: offerKey_JStr)
      have Klk: "lk \<noteq> K" using Kb by simp
      let ?D = "nextId ''DEAL'' (Suc (dealSeq s))"
      let ?acc = "accepted_offer entry offer"
      let ?v1 = "(view s)(K \<mapsto> ?acc)"
      let ?listing = "case ?v1 lk of None \<Rightarrow> [] | Some l \<Rightarrow> l"
      let ?dl = "deal_record ?D entry offer ?listing"
      let ?v2 = "?v1(?D \<mapsto> ?dl)"
      \<comment> \<open>the offer is stored as accepted\<close>
      let ?s1 = "s\<lparr>view := ?v1\<rparr>"
      have inv1: "deal_inv ns ?s1"
        by (rule deal_inv_modify [OF inv Some, where r' = ?acc])
           (simp_all add: accepted_offer_fields)
      have k1: "inv_keys ?v1 (listingSeq s) (dealSeq s)" and p1: "inv_pending ?v1 (offerSeq s)"
        and d1: "inv_deals ns ?v1 (offerSeq s)" and u1: "inv_unique ?v1"
        using inv1 unfolding deal_inv_def by simp_all
      \<comment> \<open>the deal is stored under a new id\<close>
      obtain a m where am: "m \<le> offerSeq s" "K = a @ '':'' @ nextId ''OFR'' m"
        using inv Some pend unfolding deal_inv_def inv_pending_def by blast
      have dkey: "offerKey ns (map_of ?dl ''listingId'') (map_of ?dl ''offerId'') =
                    Inr (a @ '':'' @ nextId ''OFR'' m)"
        using K am(2) by (simp add: deal_record_fields)
      have acc1: "?v1 (a @ '':'' @ nextId ''OFR'' m) = Some ?acc" using am(2) by simp
      have acc2: "map_of ?acc ''status'' \<noteq> Some (JStr ''pending'')"
        by (simp add: accepted_offer_fields)
      have fresh: "\<not> (map_of r ''listingId'' = map_of ?dl ''listingId'' \<and>
                      map_of r ''offerId'' = map_of ?dl ''offerId'')"
        if r: "?v1 (nextId ''DEAL'' n) = Some r" for n r
      proof
        assume e: "map_of r ''listingId'' = map_of ?dl ''listingId'' \<and>
                   map_of r ''offerId'' = map_of ?dl ''offerId''"
        have "K \<noteq> nextId ''DEAL'' n" unfolding Kb by (rule offer_key_not_deal_key)
        then have "view s (nextId ''DEAL'' n) = Some r" using r by (simp split: if_splits)
        then obtain a0 m0 o0 where o: 
          "offerKey ns (map_of r ''listingId'') (map_of r ''offerId'') =
             Inr (a0 @ '':'' @ nextId ''OFR'' m0)"
          "view s (a0 @ '':'' @ nextId ''OFR'' m0) = Some o0"
          "map_of o0 ''status'' \<noteq> Some (JStr ''pending'')"
          using inv unfolding deal_inv_def inv_deals_def by blast
        have "offerKey ns (map_of r ''listingId'') (map_of r ''offerId'') = Inr K"
          using e K by (simp add: deal_record_fields)
        with o(1) have "a0 @ '':'' @ nextId ''OFR'' m0 = K" by simp
        with o(2,3) Some pend show False by simp
      qed
      have st: "map_of ?dl ''status'' \<noteq> Some (JStr ''pending'')"
        by (simp add: deal_record_no_status)
      have new: "inv_keys ?v2 (listingSeq s) (Suc (dealSeq s)) \<and> inv_pending ?v2 (offerSeq s) \<and>
                 inv_deals ns ?v2 (offerSeq s) \<and> inv_unique ?v2"
        using k1 p1 d1 u1 dkey am(1) acc1 acc2 fresh st by (rule inv_new_deal)
      let ?s2 = "s\<lparr>dealSeq := Suc (dealSeq s), view := ?v2\<rparr>"
      have inv2: "deal_inv ns ?s2" using new unfolding deal_inv_def by simp
      \<comment> \<open>the listing, if there is one, is stored as sold\<close>
      show ?thesis
      proof (cases "?v1 lk")
        case None
        then have "s' = ?s2"
          using run K Some True lk by (simp add: offer_accept_def Let_def)
        with inv2 show ?thesis by simp
      next
        case (Some l)
        have s': "s' = s\<lparr>dealSeq := Suc (dealSeq s),
                          view := ?v2(lk \<mapsto> sold_listing ?D entry l)\<rparr>"
          using run K \<open>view s K = Some offer\<close> True lk Some
          by (simp add: offer_accept_def Let_def)
        have "?v1 ?D = None" using k1 by (rule deal_id_free)
        then have "lk \<noteq> ?D" using Some by auto
        then have l2: "view ?s2 lk = Some l" using Some by simp
        show ?thesis
          by (rule deal_inv_modify [OF inv2 l2, where r' = "sold_listing ?D entry l"])
             (simp_all add: s' sold_listing_fields)
      qed
    qed
  qed
qed

lemma applyEntry_inv:
  assumes "applyEntry ns entry s = Inr s'" and "deal_inv ns s"
  shows "deal_inv ns s'"
proof -
  have "s' = s \<or> listing_post entry s = Inr s' \<or> listing_update entry s = Inr s' \<or>
        listing_remove entry s = Inr s' \<or> offer_send ns entry s = Inr s' \<or>
        offer_counter ns entry s = Inr s' \<or> offer_accept ns entry s = Inr s' \<or>
        offer_decline ns entry s = Inr s' \<or> rule_set ns entry s = Inr s' \<or>
        rule_delete ns entry s = Inr s'"
    using assms(1) by (simp add: applyEntry_def Let_def split: if_splits)
  then show ?thesis
  proof (elim disjE)
    assume "s' = s"
    with assms(2) show ?thesis by simp
  next
    assume "listing_post entry s = Inr s'"
    then show ?thesis using assms(2) by (rule listing_post_inv)
  next
    assume "listing_update entry s = Inr s'"
    then show ?thesis using assms(2) by (rule listing_update_inv)
  next
    assume "listing_remove entry s = Inr s'"
    then show ?thesis using assms(2) by (rule listing_remove_inv)
  next
    assume "offer_send ns entry s = Inr s'"
    then show ?thesis using assms(2) by (rule offer_send_inv)
  next
    assume "offer_counter ns entry s = Inr s'"
    then show ?thesis using assms(2) by (rule offer_counter_inv)
  next
    assume "offer_accept ns entry s = Inr s'"
    then show ?thesis using assms(2) by (rule offer_accept_inv)
  next
    assume "offer_decline ns entry s = Inr s'"
    then show ?thesis using assms(2) by (rule offer_decline_inv)
  next
    assume "rule_set ns entry s = Inr s'"
    then show ?thesis using assms(2) by (rule rule_set_inv)
  next
    assume "rule_delete ns entry s = Inr s'"
    then show ?thesis using assms(2) by (rule rule_delete_inv)
  qed
qed

lemma apply_nodes_inv:
  "apply_nodes ns nodes s = Inr s' \<Longrightarrow> deal_inv ns s \<Longrightarrow> deal_inv ns s'"
proof (induction nodes arbitrary: s)
  case Nil
  then show ?case by simp
next
  case (Cons x nodes)
  show ?case
  proof (cases x)
    case Undecodable
    with Cons show ?thesis by simp
  next
    case (Decoded entry)
    with Cons.prems(1) obtain s1 where s1: "applyEntry ns entry s = Inr s1"
      "apply_nodes ns nodes s1 = Inr s'"
      by (cases "applyEntry ns entry s") simp_all
    have "deal_inv ns s1" using s1(1) Cons.prems(2) by (rule applyEntry_inv)
    with Cons.IH s1(2) show ?thesis by blast
  qed
qed

lemma deal_inv_fresh: "deal_inv ns (fresh Map.empty)"
  by (simp add: deal_inv_def fresh_def inv_keys_def inv_pending_def inv_deals_def inv_unique_def)

text \<open>
  From the empty state, whatever the log: two deal records that name the same listing id
  and the same offer id are one record. (What a log can do, and does in a run below, is
  to write into a deal record once it exists.)
\<close>

lemma one_deal_per_offer:
  assumes "apply_nodes ns nodes (fresh Map.empty) = Inr s"
    and "view s (nextId ''DEAL'' n1) = Some r1" and "view s (nextId ''DEAL'' n2) = Some r2"
    and "map_of r1 ''listingId'' = map_of r2 ''listingId''"
    and "map_of r1 ''offerId'' = map_of r2 ''offerId''"
  shows "n1 = n2"
proof -
  have "deal_inv ns s" using assms(1) deal_inv_fresh by (rule apply_nodes_inv)
  then have "inv_unique (view s)" unfolding deal_inv_def by simp
  then show ?thesis using assms(2-5) unfolding inv_unique_def by blast
qed

text \<open>The states named above are the ones the contract reaches from the empty state.\<close>

lemma nextId_1: "nextId p (Suc 0) = p @ ''-001''"
  by (simp add: nextId_def padStart3_def str_nat.simps eval_nat_numeral)

lemma post_step: "applyEntry ns e_post (fresh Map.empty) =
   Inr \<lparr>listingSeq = Suc 0, offerSeq = 0, dealSeq = 0, ruleSeq = 0, view = [''LST-001'' \<mapsto> listing_rec]\<rparr>"
  by (simp add: applyEntry_def e_post_def listing_post_def listing_record_def fresh_def nextId_1 mkObj_def
      map_filter_simps js_or_def listing_rec_def Let_def)

lemma send_step: "applyEntry ns (e_send ''LST-001'' ''B'' 90 2)
    \<lparr>listingSeq = Suc 0, offerSeq = 0, dealSeq = 0, ruleSeq = 0, view = [''LST-001'' \<mapsto> listing_rec]\<rparr> = Inr listed_state"
  by (simp add: applyEntry_def e_send_def offer_send_def offer_record_def nextId_1 mkObj_def map_filter_simps
      js_or_def offer_rec_def listed_state_def offerKey_def tmpl_def Let_def)

lemma listed_state_reached:
  "apply_nodes ns [Decoded e_post, Decoded (e_send ''LST-001'' ''B'' 90 2)] (fresh Map.empty) = Inr listed_state"
  by (simp add: post_step send_step)

lemma orphan_offer_state_reached:
  "apply_nodes ns [Decoded (e_send ''X'' ''B'' 90 2)] (fresh Map.empty) = Inr orphan_offer_state"
  by (simp add: applyEntry_def e_send_def offer_send_def offer_record_def nextId_1 mkObj_def map_filter_simps
      js_or_def offer_rec_def orphan_offer_state_def offerKey_def tmpl_def fresh_def Let_def)

lemma ruled_state_reached:
  "apply_nodes ns [Decoded e_rule_set] (fresh Map.empty) = Inr ruled_state"
  by (simp add: applyEntry_def e_rule_set_def rule_set_def rule_record_def nextId_1 mkObj_def map_filter_simps
      rule_rec_def ruled_state_def ruleKey_def tmpl_def fresh_def Let_def)

section \<open>Runs of the contract\<close>

lemma post_log_runs:
  "(case apply_nodes ns post_log (fresh Map.empty) of
      Inl e \<Rightarrow> False
    | Inr s1 \<Rightarrow>
        (case apply_nodes ns post_log (s1\<lparr>view := Map.empty\<rparr>) of
           Inl e \<Rightarrow> False
         | Inr s2 \<Rightarrow>
             (case apply_nodes ns post_log (fresh (view s1)) of
                Inl e \<Rightarrow> False
              | Inr s3 \<Rightarrow>
                  (case apply_nodes ns post_log s1 of
                     Inl e \<Rightarrow> False
                   | Inr s4 \<Rightarrow>
                       view s1 ''LST-001'' \<noteq> None \<and> view s1 ''LST-002'' = None \<and>
                       view s2 ''LST-001'' = None \<and> view s2 ''LST-002'' \<noteq> None \<and>
                       view s3 ''LST-002'' = None \<and> view s4 ''LST-002'' \<noteq> None))))"
  by code_simp

text \<open>
  C1 (the code breaks it). The same one-entry log is applied twice from an empty View in
  one process: the first run stores the listing under LST-001, the second under LST-002,
  so the two final Views differ. And the id given to the next listing is not a function of
  the committed View: from the same View, a process that has just started and one that
  has applied the log assign different ids.
\<close>

theorem replay_in_one_process_differs:
  "\<exists>s1 s2 s3 s4.
     apply_nodes ns post_log (fresh Map.empty) = Inr s1 \<and>
     apply_nodes ns post_log (s1\<lparr>view := Map.empty\<rparr>) = Inr s2 \<and>
     view s1 \<noteq> view s2 \<and>
     apply_nodes ns post_log (fresh (view s1)) = Inr s3 \<and>
     apply_nodes ns post_log s1 = Inr s4 \<and>
     view s3 \<noteq> view s4"
proof -
  obtain s1 where s1: "apply_nodes ns post_log (fresh Map.empty) = Inr s1"
    using post_log_runs [of ns] by (auto split: sum.splits)
  obtain s2 where s2: "apply_nodes ns post_log (s1\<lparr>view := Map.empty\<rparr>) = Inr s2"
    using post_log_runs [of ns] s1 by (auto split: sum.splits)
  obtain s3 where s3: "apply_nodes ns post_log (fresh (view s1)) = Inr s3"
    using post_log_runs [of ns] s1 s2 by (auto split: sum.splits)
  obtain s4 where s4: "apply_nodes ns post_log s1 = Inr s4"
    using post_log_runs [of ns] s1 s2 s3 by (auto split: sum.splits)
  have k: "view s1 ''LST-001'' \<noteq> None" "view s2 ''LST-001'' = None"
    "view s3 ''LST-002'' = None" "view s4 ''LST-002'' \<noteq> None"
    using post_log_runs [of ns] s1 s2 s3 s4 by simp_all
  have "view s1 \<noteq> view s2" "view s3 \<noteq> view s4"
    using k by metis+
  with s1 s2 s3 s4 show ?thesis by blast
qed

lemma skipped_entries:
  "apply_nodes ns (Undecodable # nodes) s = apply_nodes ns nodes s"
  "entry \<noteq> JNull \<Longrightarrow> fld entry ''op'' = None \<Longrightarrow> applyEntry ns entry s = Inr s"
  by (simp_all add: applyEntry_def)

text \<open>
  C2 (the code breaks it). An entry whose value is the JSON text \<^verbatim>\<open>null\<close> decodes without
  error, and reading its operation tag raises a TypeError outside the \<^verbatim>\<open>try\<close>: apply
  faults instead of skipping the entry, whatever the View and whatever follows in the log.
  So does an \<^verbatim>\<open>offer_send\<close> entry whose listing id is an object with a property named
  toString, which the template literal of the key cannot convert to a string.
\<close>

theorem null_entry_faults:
  "apply_nodes ns (Decoded JNull # nodes) s = Inl TypeError \<and>
   apply_nodes ns
     (Decoded (JObj [(''op'', JStr ''offer_send''),
                     (''listingId'', JObj [(''toString'', JNum 1)])]) # nodes) s = Inl TypeError"
  by (simp add: applyEntry_def offer_send_def offerKey_def tmpl_def Let_def)

lemma nested_offer_runs:
  "(case apply_nodes ns nested_offer_log (fresh Map.empty) of
      Inl e \<Rightarrow> False
    | Inr s3 \<Rightarrow>
        (case applyEntry ns (e_accept ''X:OFR-001'' ''OFR-002'' ''C'' 4) s3 of
           Inl e \<Rightarrow> False
         | Inr s4 \<Rightarrow>
             (case (view s3 ''X:OFR-001'', view s4 ''X:OFR-001'') of
                (Some a, Some a') \<Rightarrow>
                  map_of a ''id'' = Some (JStr ''OFR-001'') \<and>
                  map_of a ''status'' = Some (JStr ''accepted'') \<and>
                  map_of a' ''id'' = Some (JStr ''OFR-001'') \<and>
                  map_of a' ''status'' = Some (JStr ''sold'')
              | _ \<Rightarrow> False)))"
  by code_simp

text \<open>
  C3 (the code breaks it). Offer OFR-001 on X is sent and accepted. A second offer is then
  sent with the first offer's key, X:OFR-001, as its listing id, and accepted: the accept
  case reads the record stored under the listing id, which is the first offer, and marks it
  sold. The status of the accepted offer OFR-001 has moved from accepted to sold. All four
  entries are entries the router appends for \<^verbatim>\<open>offer_send\<close> and \<^verbatim>\<open>offer_accept\<close> commands.
\<close>

theorem accepted_offer_marked_sold:
  "\<exists>s3 s4 a a'.
     apply_nodes ns nested_offer_log (fresh Map.empty) = Inr s3 \<and>
     apply_nodes ns (nested_offer_log @ [Decoded (e_accept ''X:OFR-001'' ''OFR-002'' ''C'' 4)])
       (fresh Map.empty) = Inr s4 \<and>
     view s3 ''X:OFR-001'' = Some a \<and>
     map_of a ''id'' = Some (JStr ''OFR-001'') \<and>
     map_of a ''status'' = Some (JStr ''accepted'') \<and>
     view s4 ''X:OFR-001'' = Some a' \<and>
     map_of a' ''id'' = Some (JStr ''OFR-001'') \<and>
     map_of a' ''status'' = Some (JStr ''sold'')"
proof -
  obtain s3 where s3: "apply_nodes ns nested_offer_log (fresh Map.empty) = Inr s3"
    using nested_offer_runs [of ns] by (auto split: sum.splits)
  obtain s4 where s4: "applyEntry ns (e_accept ''X:OFR-001'' ''OFR-002'' ''C'' 4) s3 = Inr s4"
    using nested_offer_runs [of ns] s3 by (auto split: sum.splits)
  have run: "apply_nodes ns
      (nested_offer_log @ [Decoded (e_accept ''X:OFR-001'' ''OFR-002'' ''C'' 4)])
      (fresh Map.empty) = Inr s4"
    using apply_nodes_snoc [OF s3] s4 by simp
  obtain a a' where "view s3 ''X:OFR-001'' = Some a" "view s4 ''X:OFR-001'' = Some a'"
    "map_of a ''id'' = Some (JStr ''OFR-001'')" "map_of a ''status'' = Some (JStr ''accepted'')"
    "map_of a' ''id'' = Some (JStr ''OFR-001'')" "map_of a' ''status'' = Some (JStr ''sold'')"
    using nested_offer_runs [of ns] s3 s4 by (auto split: option.splits)
  with s3 run show ?thesis by blast
qed

lemma deal_log_runs:
  "(case apply_nodes ns deal_log (fresh Map.empty) of
      Inl e \<Rightarrow> False
    | Inr s3 \<Rightarrow>
        (case applyEntry ns (e_update ''DEAL-001'' 1 ''S'' 4) s3 of
           Inl e \<Rightarrow> False
         | Inr s4 \<Rightarrow>
             (case (view s3 ''DEAL-001'', view s4 ''DEAL-001'') of
                (Some d, Some d') \<Rightarrow>
                  map_of d ''offerId'' = Some (JStr ''OFR-001'') \<and>
                  map_of d ''seller'' = Some (JStr ''S'') \<and>
                  map_of d ''price'' = None \<and>
                  map_of d ''updatedAt'' = None \<and>
                  map_of d' ''price'' = Some (JNum 1) \<and>
                  map_of d' ''updatedAt'' = Some (JNum 4)
              | _ \<Rightarrow> False)))"
  by code_simp

text \<open>
  C4 (the code breaks it). A listing is posted, an offer on it is sent and accepted, which
  creates the deal DEAL-001 with seller S. A \<^verbatim>\<open>listing_update\<close> entry from S whose id is
  DEAL-001 then finds the deal under that key, finds its seller equal to the submitter, and
  writes a price and an update time into the deal record: an operation other than the
  accepting one has mutated a Deal.
\<close>

theorem deal_mutated_by_listing_update:
  "\<exists>s3 s4 d d'.
     apply_nodes ns deal_log (fresh Map.empty) = Inr s3 \<and>
     apply_nodes ns (deal_log @ [Decoded (e_update ''DEAL-001'' 1 ''S'' 4)])
       (fresh Map.empty) = Inr s4 \<and>
     view s3 ''DEAL-001'' = Some d \<and>
     map_of d ''offerId'' = Some (JStr ''OFR-001'') \<and>
     view s4 ''DEAL-001'' = Some d' \<and>
     map_of d ''price'' = None \<and>
     map_of d' ''price'' = Some (JNum 1) \<and>
     map_of d' ''updatedAt'' = Some (JNum 4) \<and>
     d \<noteq> d'"
proof -
  obtain s3 where s3: "apply_nodes ns deal_log (fresh Map.empty) = Inr s3"
    using deal_log_runs [of ns] by (auto split: sum.splits)
  obtain s4 where s4: "applyEntry ns (e_update ''DEAL-001'' 1 ''S'' 4) s3 = Inr s4"
    using deal_log_runs [of ns] s3 by (auto split: sum.splits)
  have run: "apply_nodes ns (deal_log @ [Decoded (e_update ''DEAL-001'' 1 ''S'' 4)])
      (fresh Map.empty) = Inr s4"
    using apply_nodes_snoc [OF s3] s4 by simp
  obtain d d' where d: "view s3 ''DEAL-001'' = Some d" "view s4 ''DEAL-001'' = Some d'"
    "map_of d ''offerId'' = Some (JStr ''OFR-001'')"
    "map_of d ''price'' = None" "map_of d' ''price'' = Some (JNum 1)"
    "map_of d' ''updatedAt'' = Some (JNum 4)"
    using deal_log_runs [of ns] s3 s4 by (auto split: option.splits)
  then have "d \<noteq> d'" by auto
  with s3 run d show ?thesis by blast
qed

lemma two_offers_runs:
  "(case apply_nodes ns two_offers_prefix (fresh Map.empty) of
      Inl e \<Rightarrow> False
    | Inr s4 \<Rightarrow>
        (case applyEntry ns (e_accept ''LST-001'' ''OFR-002'' ''S'' 5) s4 of
           Inl e \<Rightarrow> False
         | Inr s5 \<Rightarrow>
             (case (view s4 ''LST-001'', view s4 ''LST-001:OFR-002'',
                    view s5 ''DEAL-001'', view s5 ''DEAL-002'') of
                (Some l, Some o2, Some d1, Some d2) \<Rightarrow>
                  map_of l ''status'' = Some (JStr ''sold'') \<and>
                  map_of o2 ''status'' = Some (JStr ''pending'') \<and>
                  map_of d1 ''listingId'' = Some (JStr ''LST-001'') \<and>
                  map_of d2 ''listingId'' = Some (JStr ''LST-001'') \<and>
                  map_of d1 ''offerId'' = Some (JStr ''OFR-001'') \<and>
                  map_of d2 ''offerId'' = Some (JStr ''OFR-002'')
              | _ \<Rightarrow> False)))"
  by code_simp

text \<open>
  C5. One listing is posted, two offers are sent against it and the first is accepted:
  the listing is then sold and the second offer still pending. Accepting the second offer
  goes through, and the View holds two deals, DEAL-001 and DEAL-002, for two different
  offers on the same listing LST-001.
\<close>

theorem second_accept_on_sold_listing:
  "\<exists>s4 s5 l o2 d1 d2.
     apply_nodes ns two_offers_prefix (fresh Map.empty) = Inr s4 \<and>
     view s4 ''LST-001'' = Some l \<and> map_of l ''status'' = Some (JStr ''sold'') \<and>
     view s4 ''LST-001:OFR-002'' = Some o2 \<and> map_of o2 ''status'' = Some (JStr ''pending'') \<and>
     apply_nodes ns (two_offers_prefix @ [Decoded (e_accept ''LST-001'' ''OFR-002'' ''S'' 5)])
       (fresh Map.empty) = Inr s5 \<and>
     view s5 ''DEAL-001'' = Some d1 \<and> view s5 ''DEAL-002'' = Some d2 \<and>
     map_of d1 ''listingId'' = Some (JStr ''LST-001'') \<and>
     map_of d2 ''listingId'' = Some (JStr ''LST-001'') \<and>
     map_of d1 ''offerId'' = Some (JStr ''OFR-001'') \<and>
     map_of d2 ''offerId'' = Some (JStr ''OFR-002'')"
proof -
  obtain s4 where s4: "apply_nodes ns two_offers_prefix (fresh Map.empty) = Inr s4"
    using two_offers_runs [of ns] by (auto split: sum.splits)
  obtain s5 where s5: "applyEntry ns (e_accept ''LST-001'' ''OFR-002'' ''S'' 5) s4 = Inr s5"
    using two_offers_runs [of ns] s4 by (auto split: sum.splits)
  have run: "apply_nodes ns
      (two_offers_prefix @ [Decoded (e_accept ''LST-001'' ''OFR-002'' ''S'' 5)])
      (fresh Map.empty) = Inr s5"
    using apply_nodes_snoc [OF s4] s5 by simp
  obtain l o2 d1 d2 where "view s4 ''LST-001'' = Some l"
    "view s4 ''LST-001:OFR-002'' = Some o2"
    "view s5 ''DEAL-001'' = Some d1" "view s5 ''DEAL-002'' = Some d2"
    "map_of l ''status'' = Some (JStr ''sold'')"
    "map_of o2 ''status'' = Some (JStr ''pending'')"
    "map_of d1 ''listingId'' = Some (JStr ''LST-001'')"
    "map_of d2 ''listingId'' = Some (JStr ''LST-001'')"
    "map_of d1 ''offerId'' = Some (JStr ''OFR-001'')"
    "map_of d2 ''offerId'' = Some (JStr ''OFR-002'')"
    using two_offers_runs [of ns] s4 s5 by (auto split: option.splits)
  with s4 run show ?thesis by blast
qed

text \<open>
  C6, as the specification words it, fails: the three offer operations look at no submitter
  identity at all. The offer of buyer B on the listing of seller S is accepted by an entry
  whose submitter X is neither of them; the offer becomes accepted and a deal is created.
\<close>

theorem third_party_accept_counterexample:
  "view listed_state ''LST-001'' = Some listing_rec \<and>
   map_of listing_rec ''seller'' = Some (JStr ''S'') \<and>
   view listed_state ''LST-001:OFR-001'' = Some (offer_rec ''LST-001'') \<and>
   map_of (offer_rec ''LST-001'') ''buyer'' = Some (JStr ''B'') \<and>
   fld (e_accept ''LST-001'' ''OFR-001'' ''X'' 9) ''by'' = Some (JStr ''X'') \<and>
   \<not> isl (applyEntry int_digits (e_accept ''LST-001'' ''OFR-001'' ''X'' 9) listed_state) \<and>
   map_of (the (view (projr (applyEntry int_digits (e_accept ''LST-001'' ''OFR-001'' ''X'' 9)
      listed_state)) ''LST-001:OFR-001'')) ''status'' = Some (JStr ''accepted'') \<and>
   view listed_state ''DEAL-001'' = None \<and>
   view (projr (applyEntry int_digits (e_accept ''LST-001'' ''OFR-001'' ''X'' 9) listed_state))
     ''DEAL-001'' \<noteq> None"
  by code_simp

text \<open>
  C6 as amended. A \<^verbatim>\<open>listing_update\<close> or \<^verbatim>\<open>listing_remove\<close> entry whose seller is not
  strictly equal to the seller of the record stored under its id leaves the state
  unchanged, and so does a \<^verbatim>\<open>rule_delete\<close> entry whose owner is not strictly equal to the
  owner of the stored rule. An \<^verbatim>\<open>offer_counter\<close>, \<^verbatim>\<open>offer_accept\<close> or \<^verbatim>\<open>offer_decline\<close>
  entry leaves the state unchanged if and only if no record is stored under the offer's key
  or the stored status is not pending, whoever submits it.
\<close>

theorem ownership_checks_of_apply:
  "((fld entry ''op'' = Some (JStr ''listing_update'') \<or>
     fld entry ''op'' = Some (JStr ''listing_remove'')) \<and>
    storeKey (fld entry ''id'') = Inr k \<and> view s k = Some r \<and>
    \<not> strictEq (map_of r ''seller'') (fld entry ''seller'')
    \<longrightarrow> applyEntry ns entry s = Inr s) \<and>
   (fld entry ''op'' = Some (JStr ''rule_delete'') \<and>
    ruleKey ns (fld entry ''owner'') (fld entry ''ruleId'') = Inr k \<and> view s k = Some r \<and>
    \<not> strictEq (map_of r ''owner'') (fld entry ''owner'')
    \<longrightarrow> applyEntry ns entry s = Inr s) \<and>
   ((fld entry ''op'' = Some (JStr ''offer_counter'') \<or>
     fld entry ''op'' = Some (JStr ''offer_accept'') \<or>
     fld entry ''op'' = Some (JStr ''offer_decline'')) \<and>
    offerKey ns (fld entry ''listingId'') (fld entry ''offerId'') = Inr k
    \<longrightarrow> (applyEntry ns entry s = Inr s \<longleftrightarrow>
           (view s k = None \<or>
            (\<exists>r. view s k = Some r \<and>
                 \<not> strictEq (map_of r ''status'') (Some (JStr ''pending''))))))"
proof (intro conjI impI)
  assume "(fld entry ''op'' = Some (JStr ''listing_update'') \<or>
     fld entry ''op'' = Some (JStr ''listing_remove'')) \<and>
    storeKey (fld entry ''id'') = Inr k \<and> view s k = Some r \<and>
    \<not> strictEq (map_of r ''seller'') (fld entry ''seller'')"
  then show "applyEntry ns entry s = Inr s"
    using listing_nonseller_noop [of entry k s r ns] by blast
next
  assume "fld entry ''op'' = Some (JStr ''rule_delete'') \<and>
    ruleKey ns (fld entry ''owner'') (fld entry ''ruleId'') = Inr k \<and> view s k = Some r \<and>
    \<not> strictEq (map_of r ''owner'') (fld entry ''owner'')"
  then show "applyEntry ns entry s = Inr s"
    using rule_nonowner_noop [of entry ns k s r] by blast
next
  assume a: "(fld entry ''op'' = Some (JStr ''offer_counter'') \<or>
     fld entry ''op'' = Some (JStr ''offer_accept'') \<or>
     fld entry ''op'' = Some (JStr ''offer_decline'')) \<and>
    offerKey ns (fld entry ''listingId'') (fld entry ''offerId'') = Inr k"
  then have key: "offerKey ns (fld entry ''listingId'') (fld entry ''offerId'') = Inr k"
    by (rule conjunct2)
  from a consider
      "fld entry ''op'' = Some (JStr ''offer_counter'')"
    | "fld entry ''op'' = Some (JStr ''offer_accept'')"
    | "fld entry ''op'' = Some (JStr ''offer_decline'')"
    by blast
  then show "applyEntry ns entry s = Inr s \<longleftrightarrow>
           (view s k = None \<or>
            (\<exists>r. view s k = Some r \<and>
                 \<not> strictEq (map_of r ''status'') (Some (JStr ''pending''))))"
  proof cases
    case 1
    then show ?thesis
      using offer_counter_noop_iff [OF key, of s] by (simp add: applyEntry_dispatch)
  next
    case 2
    then show ?thesis
      using offer_accept_noop_iff [OF key, of s] by (simp add: applyEntry_offer_accept)
  next
    case 3
    then show ?thesis
      using offer_decline_noop_iff [OF key, of s] by (simp add: applyEntry_dispatch)
  qed
qed

theorem ownership_checks_of_apply_witness:
  "(fld (e_update ''LST-001'' 1 ''X'' 9) ''op'' = Some (JStr ''listing_update'') \<and>
    storeKey (fld (e_update ''LST-001'' 1 ''X'' 9) ''id'') = Inr ''LST-001'' \<and>
    view listed_state ''LST-001'' = Some listing_rec \<and>
    \<not> strictEq (map_of listing_rec ''seller'') (fld (e_update ''LST-001'' 1 ''X'' 9) ''seller'') \<and>
    applyEntry int_digits (e_update ''LST-001'' 1 ''X'' 9) listed_state = Inr listed_state) \<and>
   (fld (e_rule_delete ''A'' ''B:RULE-001'' 9) ''op'' = Some (JStr ''rule_delete'') \<and>
    ruleKey int_digits (fld (e_rule_delete ''A'' ''B:RULE-001'' 9) ''owner'')
      (fld (e_rule_delete ''A'' ''B:RULE-001'' 9) ''ruleId'') = Inr ''rule:A:B:RULE-001'' \<and>
    view ruled_state ''rule:A:B:RULE-001'' = Some rule_rec \<and>
    \<not> strictEq (map_of rule_rec ''owner'') (fld (e_rule_delete ''A'' ''B:RULE-001'' 9) ''owner'') \<and>
    applyEntry int_digits (e_rule_delete ''A'' ''B:RULE-001'' 9) ruled_state = Inr ruled_state) \<and>
   (fld (e_accept ''LST-001'' ''OFR-009'' ''X'' 9) ''op'' = Some (JStr ''offer_accept'') \<and>
    offerKey int_digits (fld (e_accept ''LST-001'' ''OFR-009'' ''X'' 9) ''listingId'')
      (fld (e_accept ''LST-001'' ''OFR-009'' ''X'' 9) ''offerId'') = Inr ''LST-001:OFR-009'' \<and>
    view listed_state ''LST-001:OFR-009'' = None \<and>
    applyEntry int_digits (e_accept ''LST-001'' ''OFR-009'' ''X'' 9) listed_state = Inr listed_state)"
proof -
  have a1: "fld (e_update ''LST-001'' 1 ''X'' 9) ''op'' = Some (JStr ''listing_update'')"
    and a2: "storeKey (fld (e_update ''LST-001'' 1 ''X'' 9) ''id'') = Inr ''LST-001''"
    and a3: "view listed_state ''LST-001'' = Some listing_rec"
    and a4: "\<not> strictEq (map_of listing_rec ''seller'')
               (fld (e_update ''LST-001'' 1 ''X'' 9) ''seller'')"
    by (simp_all add: e_update_def storeKey_def listed_state_def listing_rec_def)
  have b1: "fld (e_rule_delete ''A'' ''B:RULE-001'' 9) ''op'' = Some (JStr ''rule_delete'')"
    and b2: "ruleKey int_digits (fld (e_rule_delete ''A'' ''B:RULE-001'' 9) ''owner'')
      (fld (e_rule_delete ''A'' ''B:RULE-001'' 9) ''ruleId'') = Inr ''rule:A:B:RULE-001''"
    and b3: "view ruled_state ''rule:A:B:RULE-001'' = Some rule_rec"
    and b4: "\<not> strictEq (map_of rule_rec ''owner'')
               (fld (e_rule_delete ''A'' ''B:RULE-001'' 9) ''owner'')"
    by (simp_all add: e_rule_delete_def ruleKey_def tmpl_def ruled_state_def rule_rec_def)
  have c1: "fld (e_accept ''LST-001'' ''OFR-009'' ''X'' 9) ''op'' = Some (JStr ''offer_accept'')"
    and c2: "offerKey int_digits (fld (e_accept ''LST-001'' ''OFR-009'' ''X'' 9) ''listingId'')
      (fld (e_accept ''LST-001'' ''OFR-009'' ''X'' 9) ''offerId'') = Inr ''LST-001:OFR-009''"
    and c3: "view listed_state ''LST-001:OFR-009'' = None"
    by (simp_all add: e_accept_def offerKey_def tmpl_def listed_state_def)
  have a: "applyEntry int_digits (e_update ''LST-001'' 1 ''X'' 9) listed_state = Inr listed_state"
    using ownership_checks_of_apply
      [where entry = "e_update ''LST-001'' 1 ''X'' 9" and k = "''LST-001''"
         and s = listed_state and r = listing_rec and ns = int_digits]
      a1 a2 a3 a4 by blast
  have b: "applyEntry int_digits (e_rule_delete ''A'' ''B:RULE-001'' 9) ruled_state = Inr ruled_state"
    using ownership_checks_of_apply
      [where entry = "e_rule_delete ''A'' ''B:RULE-001'' 9" and k = "''rule:A:B:RULE-001''"
         and s = ruled_state and r = rule_rec and ns = int_digits]
      b1 b2 b3 b4 by blast
  have c: "applyEntry int_digits (e_accept ''LST-001'' ''OFR-009'' ''X'' 9) listed_state = Inr listed_state"
    using ownership_checks_of_apply
      [where entry = "e_accept ''LST-001'' ''OFR-009'' ''X'' 9" and k = "''LST-001:OFR-009''"
         and s = listed_state and ns = int_digits]
      c1 c2 c3 by blast
  show ?thesis
    by (intro conjI a1 a2 a3 a4 a b1 b2 b3 b4 b c1 c2 c3 c)
qed

text \<open>
  C10. A pending offer is stored under the key of an \<^verbatim>\<open>offer_accept\<close> entry whose listing
  id is a string under which nothing is stored. Then the entry is applied without fault: the
  offer is stored as accepted, the next deal id is allocated and a deal is stored under it
  whose listingTitle is the empty string, whose currency is TNK and whose seller is the
  seller field of the entry; the offer's key and the deal's key are the only keys written.
\<close>

theorem accept_without_listing:
  assumes op: "fld entry ''op'' = Some (JStr ''offer_accept'')"
    and lid: "fld entry ''listingId'' = Some (JStr lk)"
    and key: "offerKey ns (fld entry ''listingId'') (fld entry ''offerId'') = Inr key"
    and offer: "view s key = Some offer"
    and pending: "map_of offer ''status'' = Some (JStr ''pending'')"
    and nolisting: "view s lk = None"
  shows "\<exists>offer' deal.
     applyEntry ns entry s =
       Inr (s\<lparr>dealSeq := dealSeq s + 1,
              view := (view s)(key \<mapsto> offer', nextId ''DEAL'' (dealSeq s + 1) \<mapsto> deal)\<rparr>) \<and>
     key \<noteq> nextId ''DEAL'' (dealSeq s + 1) \<and>
     map_of offer' ''status'' = Some (JStr ''accepted'') \<and>
     map_of offer' ''acceptedBy'' = fld entry ''by'' \<and>
     map_of deal ''id'' = Some (JStr (nextId ''DEAL'' (dealSeq s + 1))) \<and>
     map_of deal ''listingId'' = Some (JStr lk) \<and>
     map_of deal ''offerId'' = fld entry ''offerId'' \<and>
     map_of deal ''listingTitle'' = Some (JStr []) \<and>
     map_of deal ''currency'' = Some (JStr ''TNK'') \<and>
     map_of deal ''seller'' = fld entry ''seller'' \<and>
     map_of deal ''buyer'' = map_of offer ''buyer'' \<and>
     map_of deal ''finalPrice'' = map_of offer ''amount''"
proof -
  let ?dealId = "nextId ''DEAL'' (dealSeq s + 1)"
  let ?offer' = "accepted_offer entry offer"
  let ?deal = "deal_record ?dealId entry offer []"
  have "offerKey ns (Some (JStr lk)) (fld entry ''offerId'') = Inr key"
    using key lid by simp
  then obtain b where k: "key = lk @ '':'' @ b"
    by (blast dest: offerKey_JStr)
  have neq_lk: "lk \<noteq> key" using k by simp
  have "CHR '':'' \<notin> set ?dealId" by (rule nextId_no_colon) simp
  moreover have "CHR '':'' \<in> set key" using k by simp
  ultimately have neq_deal: "key \<noteq> ?dealId" by metis
  have sk: "storeKey (fld entry ''listingId'') = Inr lk"
    using lid by (simp add: storeKey_def)
  have run: "offer_accept ns entry s =
      Inr (s\<lparr>dealSeq := dealSeq s + 1,
             view := (view s)(key \<mapsto> ?offer', ?dealId \<mapsto> ?deal)\<rparr>)"
    unfolding offer_accept_def
    using key offer pending nolisting neq_lk sk by (simp add: Let_def)
  have ae: "applyEntry ns entry s = offer_accept ns entry s"
    using op by (rule applyEntry_offer_accept)
  have f1: "map_of ?offer' ''status'' = Some (JStr ''accepted'')"
    "map_of ?offer' ''acceptedBy'' = fld entry ''by''"
    by (simp_all add: accepted_offer_fields)
  have f2: "map_of ?deal ''listingTitle'' = Some (JStr [])"
    "map_of ?deal ''currency'' = Some (JStr ''TNK'')"
    "map_of ?deal ''seller'' = fld entry ''seller''"
    by (simp_all add: deal_record_fields js_or_def)
  have f3: "map_of ?deal ''listingId'' = Some (JStr lk)"
    using lid by (simp add: deal_record_fields)
  show ?thesis
    using ae run neq_deal f1 f2 f3 deal_record_fields(1,3,5,7) by metis
qed

theorem accept_without_listing_witness:
  "fld (e_accept ''X'' ''OFR-001'' ''S'' 5) ''op'' = Some (JStr ''offer_accept'') \<and>
   fld (e_accept ''X'' ''OFR-001'' ''S'' 5) ''listingId'' = Some (JStr ''X'') \<and>
   offerKey int_digits (fld (e_accept ''X'' ''OFR-001'' ''S'' 5) ''listingId'')
     (fld (e_accept ''X'' ''OFR-001'' ''S'' 5) ''offerId'') = Inr ''X:OFR-001'' \<and>
   view orphan_offer_state ''X:OFR-001'' = Some (offer_rec ''X'') \<and>
   map_of (offer_rec ''X'') ''status'' = Some (JStr ''pending'') \<and>
   view orphan_offer_state ''X'' = None \<and>
   (\<exists>offer' deal.
      applyEntry int_digits (e_accept ''X'' ''OFR-001'' ''S'' 5) orphan_offer_state =
        Inr (orphan_offer_state\<lparr>dealSeq := dealSeq orphan_offer_state + 1,
               view := (view orphan_offer_state)(''X:OFR-001'' \<mapsto> offer',
                 nextId ''DEAL'' (dealSeq orphan_offer_state + 1) \<mapsto> deal)\<rparr>) \<and>
      ''X:OFR-001'' \<noteq> nextId ''DEAL'' (dealSeq orphan_offer_state + 1) \<and>
      map_of offer' ''status'' = Some (JStr ''accepted'') \<and>
      map_of offer' ''acceptedBy'' = fld (e_accept ''X'' ''OFR-001'' ''S'' 5) ''by'' \<and>
      map_of deal ''id'' = Some (JStr (nextId ''DEAL'' (dealSeq orphan_offer_state + 1))) \<and>
      map_of deal ''listingId'' = Some (JStr ''X'') \<and>
      map_of deal ''offerId'' = fld (e_accept ''X'' ''OFR-001'' ''S'' 5) ''offerId'' \<and>
      map_of deal ''listingTitle'' = Some (JStr []) \<and>
      map_of deal ''currency'' = Some (JStr ''TNK'') \<and>
      map_of deal ''seller'' = fld (e_accept ''X'' ''OFR-001'' ''S'' 5) ''seller'' \<and>
      map_of deal ''buyer'' = map_of (offer_rec ''X'') ''buyer'' \<and>
      map_of deal ''finalPrice'' = map_of (offer_rec ''X'') ''amount'')"
proof -
  have h1: "fld (e_accept ''X'' ''OFR-001'' ''S'' 5) ''op'' = Some (JStr ''offer_accept'')"
    and h2: "fld (e_accept ''X'' ''OFR-001'' ''S'' 5) ''listingId'' = Some (JStr ''X'')"
    and h3: "offerKey int_digits (fld (e_accept ''X'' ''OFR-001'' ''S'' 5) ''listingId'')
       (fld (e_accept ''X'' ''OFR-001'' ''S'' 5) ''offerId'') = Inr ''X:OFR-001''"
    and h4: "view orphan_offer_state ''X:OFR-001'' = Some (offer_rec ''X'')"
    and h5: "map_of (offer_rec ''X'') ''status'' = Some (JStr ''pending'')"
    and h6: "view orphan_offer_state ''X'' = None"
    by (simp_all add: e_accept_def offerKey_def tmpl_def orphan_offer_state_def offer_rec_def)
  note w = accept_without_listing [OF h1 h2 h3 h4 h5 h6]
  show ?thesis
    by (intro conjI h1 h2 h3 h4 h5 h6 w)
qed

section \<open>The router and the rule engine\<close>

text \<open>
  C7, as the specification words it, fails: a \<^verbatim>\<open>rule_set\<close> command that names both
  \<^verbatim>\<open>auto_buy_below\<close> and \<^verbatim>\<open>auto_accept_above\<close> is not rejected. The reply is a success and
  one entry, an \<^verbatim>\<open>auto_buy\<close> rule, is appended to the log.
\<close>

theorem two_shapes_accepted_counterexample:
  "\<not> spec_one_shape cmd_two_shapes \<and>
   ruleSet ''A'' 7 cmd_two_shapes =
     ([(''ok'', JBool True), (''message'', JStr ''Rule set: auto_buy'')],
      [JObj [(''op'', JStr ''rule_set''), (''ruleType'', JStr ''auto_buy''),
             (''params'', JObj [(''max_price'', JNum 50)]),
             (''owner'', JStr ''A''), (''ts'', JNum 7)]])"
  by (simp add: spec_one_shape_def cmd_two_shapes_def ruleSet_def rule_entry_def ok_reply_def
      mkObj_def map_filter_simps Let_def)

text \<open>
  C7 as amended. The reply is a failure exactly when none of the three parameters is
  present, and exactly then nothing is appended. Otherwise the reply is a success and one
  entry is appended, whose rule type is decided by the first parameter present in the order
  \<^verbatim>\<open>auto_buy_below\<close>, \<^verbatim>\<open>auto_accept_above\<close>, \<^verbatim>\<open>auto_counter_ratio\<close>; further parameters
  are ignored and a listing id is not required.
\<close>

theorem ruleSet_first_parameter_decides:
  "(map_of (fst (ruleSet address now cmd)) ''ok'' = Some (JBool False)) =
     (fld cmd ''auto_buy_below'' = None \<and> fld cmd ''auto_accept_above'' = None \<and>
      fld cmd ''auto_counter_ratio'' = None) \<and>
   (map_of (fst (ruleSet address now cmd)) ''ok'' = Some (JBool True)) =
     (fld cmd ''auto_buy_below'' \<noteq> None \<or> fld cmd ''auto_accept_above'' \<noteq> None \<or>
      fld cmd ''auto_counter_ratio'' \<noteq> None) \<and>
   map (\<lambda>e. (fld e ''op'', fld e ''ruleType'', fld e ''owner'')) (snd (ruleSet address now cmd)) =
     (if fld cmd ''auto_buy_below'' \<noteq> None
      then [(Some (JStr ''rule_set''), Some (JStr ''auto_buy''), Some (JStr address))]
      else if fld cmd ''auto_accept_above'' \<noteq> None
      then [(Some (JStr ''rule_set''), Some (JStr ''auto_accept''), Some (JStr address))]
      else if fld cmd ''auto_counter_ratio'' \<noteq> None
      then [(Some (JStr ''rule_set''), Some (JStr ''auto_counter''), Some (JStr address))]
      else [])"
  by (simp add: ruleSet_def rule_entry_def ok_reply_def err_reply_def mkObj_def
      map_filter_simps Let_def)

theorem ruleSet_first_parameter_decides_witness:
  "(fld cmd_ratio ''auto_buy_below'' = None \<and> fld cmd_ratio ''auto_accept_above'' = None \<and>
    fld cmd_ratio ''auto_counter_ratio'' \<noteq> None) \<and>
   map_of (fst (ruleSet ''A'' 7 cmd_ratio)) ''ok'' = Some (JBool True) \<and>
   map (\<lambda>e. (fld e ''op'', fld e ''ruleType'', fld e ''owner'')) (snd (ruleSet ''A'' 7 cmd_ratio)) =
     [(Some (JStr ''rule_set''), Some (JStr ''auto_counter''), Some (JStr ''A''))] \<and>
   (fld cmd_none ''auto_buy_below'' = None \<and> fld cmd_none ''auto_accept_above'' = None \<and>
    fld cmd_none ''auto_counter_ratio'' = None) \<and>
   map_of (fst (ruleSet ''A'' 7 cmd_none)) ''ok'' = Some (JBool False) \<and>
   map (\<lambda>e. (fld e ''op'', fld e ''ruleType'', fld e ''owner'')) (snd (ruleSet ''A'' 7 cmd_none)) = []"
proof -
  have r: "fld cmd_ratio ''auto_buy_below'' = None \<and> fld cmd_ratio ''auto_accept_above'' = None \<and>
    fld cmd_ratio ''auto_counter_ratio'' \<noteq> None"
    by (simp add: cmd_ratio_def)
  have n: "fld cmd_none ''auto_buy_below'' = None \<and> fld cmd_none ''auto_accept_above'' = None \<and>
    fld cmd_none ''auto_counter_ratio'' = None"
    by (simp add: cmd_none_def)
  note t1 = ruleSet_first_parameter_decides [of "''A''" 7 cmd_ratio]
  note t2 = ruleSet_first_parameter_decides [of "''A''" 7 cmd_none]
  have a: "map_of (fst (ruleSet ''A'' 7 cmd_ratio)) ''ok'' = Some (JBool True)"
    using t1 r by blast
  have b: "map (\<lambda>e. (fld e ''op'', fld e ''ruleType'', fld e ''owner''))
      (snd (ruleSet ''A'' 7 cmd_ratio)) =
     [(Some (JStr ''rule_set''), Some (JStr ''auto_counter''), Some (JStr ''A''))]"
    using t1 r by simp
  have c: "map_of (fst (ruleSet ''A'' 7 cmd_none)) ''ok'' = Some (JBool False)"
    using t2 n by blast
  have d: "map (\<lambda>e. (fld e ''op'', fld e ''ruleType'', fld e ''owner''))
      (snd (ruleSet ''A'' 7 cmd_none)) = []"
    using t2 n by simp
  show ?thesis
    by (intro conjI r a b n c d)
qed

text \<open>
  C8, as the specification words it, fails: the code takes the integer part of the
  product as the floor. With an asking price of 101 and a ratio of one half (the product
  50.5 is exact in binary floating point) an offer of 50 is accepted, where the rule as
  worded counters it at 50.5.
\<close>

theorem floor_is_rounded_down_counterexample:
  "evalAcceptRules (*) (Some (Some 101)) ''L'' \<lparr>msg_amount = Some 50, msg_offerId = Some ''O''\<rparr>
     [counter_rule ''L'' (1 / 2)] = [Offer_accept ''L'' (Some ''O'')] \<and>
   spec_auto_counter ''L'' (Some ''O'') 101 (1 / 2) 50 = [Offer_counter ''L'' (Some ''O'') (101 / 2)]"
  by (simp add: counter_rule_def floor_of_product_def js_lt_def spec_auto_counter_def)

lemma evalAcceptRules_skip:
  "\<forall>r \<in> set pre. \<not> acts lid offerMsg r \<Longrightarrow>
   evalAcceptRules fmul listingResult lid offerMsg (pre @ rules) =
   evalAcceptRules fmul listingResult lid offerMsg rules"
  by (induction pre) (auto simp: acts_def)

text \<open>
  C8 as amended. When no earlier rule of the list acts on the offer, an \<^verbatim>\<open>auto_counter\<close>
  rule scoped to the listing, the listing being found, takes as floor the integer part of
  the product of asking price and ratio; an offer below that floor is countered at exactly
  the floor, any other offer is accepted. With asking price 100 and ratio 0.9 the floor is
  90: see the witness.
\<close>

theorem auto_counter_floor:
  assumes "\<forall>r' \<in> set pre. \<not> acts lid offerMsg r'"
    and "rule_type r = ''auto_counter''"
    and "p_listingId (rule_params r) = Some lid"
    and "p_ratio (rule_params r) = Some q"
    and "msg_amount offerMsg = Some a"
  shows "evalAcceptRules fmul (Some (Some p)) lid offerMsg (pre @ r # post) =
     (if a < of_int \<lfloor>fmul p q\<rfloor>
      then [Offer_counter lid (msg_offerId offerMsg) (of_int \<lfloor>fmul p q\<rfloor>)]
      else [Offer_accept lid (msg_offerId offerMsg)])"
proof -
  have "evalAcceptRules fmul (Some (Some p)) lid offerMsg (pre @ r # post) =
        evalAcceptRules fmul (Some (Some p)) lid offerMsg (r # post)"
    using assms(1) by (rule evalAcceptRules_skip)
  also have "\<dots> = (if a < of_int \<lfloor>fmul p q\<rfloor>
      then [Offer_counter lid (msg_offerId offerMsg) (of_int \<lfloor>fmul p q\<rfloor>)]
      else [Offer_accept lid (msg_offerId offerMsg)])"
    using assms(2-5) by (simp add: floor_of_product_def js_lt_def)
  finally show ?thesis .
qed

theorem auto_counter_floor_witness:
  "\<not> acts ''L'' \<lparr>msg_amount = Some 85, msg_offerId = Some ''O''\<rparr> (accept_rule ''L'' 95) \<and>
   \<not> acts ''L'' \<lparr>msg_amount = Some 92, msg_offerId = Some ''O''\<rparr> (accept_rule ''L'' 95) \<and>
   rule_type (counter_rule ''L'' (9 / 10)) = ''auto_counter'' \<and>
   p_listingId (rule_params (counter_rule ''L'' (9 / 10))) = Some ''L'' \<and>
   p_ratio (rule_params (counter_rule ''L'' (9 / 10))) = Some (9 / 10) \<and>
   evalAcceptRules (*) (Some (Some 100)) ''L'' \<lparr>msg_amount = Some 85, msg_offerId = Some ''O''\<rparr>
     ([accept_rule ''L'' 95] @ counter_rule ''L'' (9 / 10) # []) =
     [Offer_counter ''L'' (Some ''O'') 90] \<and>
   evalAcceptRules (*) (Some (Some 100)) ''L'' \<lparr>msg_amount = Some 92, msg_offerId = Some ''O''\<rparr>
     ([accept_rule ''L'' 95] @ counter_rule ''L'' (9 / 10) # []) =
     [Offer_accept ''L'' (Some ''O'')]"
proof -
  have g1: "\<not> acts ''L'' \<lparr>msg_amount = Some 85, msg_offerId = Some ''O''\<rparr> (accept_rule ''L'' 95)"
    and g2: "\<not> acts ''L'' \<lparr>msg_amount = Some 92, msg_offerId = Some ''O''\<rparr> (accept_rule ''L'' 95)"
    by (simp_all add: acts_def accept_rule_def js_ge_def)
  have h1: "\<forall>r' \<in> set [accept_rule ''L'' 95].
      \<not> acts ''L'' \<lparr>msg_amount = Some 85, msg_offerId = Some ''O''\<rparr> r'"
    and h2: "\<forall>r' \<in> set [accept_rule ''L'' 95].
      \<not> acts ''L'' \<lparr>msg_amount = Some 92, msg_offerId = Some ''O''\<rparr> r'"
    using g1 g2 by simp_all
  have h3: "rule_type (counter_rule ''L'' (9 / 10)) = ''auto_counter''"
    and h4: "p_listingId (rule_params (counter_rule ''L'' (9 / 10))) = Some ''L''"
    and h5: "p_ratio (rule_params (counter_rule ''L'' (9 / 10))) = Some (9 / 10)"
    by (simp_all add: counter_rule_def)
  have m1: "msg_amount \<lparr>msg_amount = Some 85, msg_offerId = Some ''O''\<rparr> = Some (85 :: rat)"
    and m2: "msg_amount \<lparr>msg_amount = Some 92, msg_offerId = Some ''O''\<rparr> = Some (92 :: rat)"
    by simp_all
  have fl: "\<lfloor>(100 :: rat) * (9 / 10)\<rfloor> = 90" by simp
  have a: "evalAcceptRules (*) (Some (Some 100)) ''L''
      \<lparr>msg_amount = Some 85, msg_offerId = Some ''O''\<rparr>
      ([accept_rule ''L'' 95] @ counter_rule ''L'' (9 / 10) # []) =
      [Offer_counter ''L'' (Some ''O'') 90]"
    using auto_counter_floor [OF h1 h3 h4 h5 m1, of "(*)" 100 "[]"] fl by simp
  have b: "evalAcceptRules (*) (Some (Some 100)) ''L''
      \<lparr>msg_amount = Some 92, msg_offerId = Some ''O''\<rparr>
      ([accept_rule ''L'' 95] @ counter_rule ''L'' (9 / 10) # []) =
      [Offer_accept ''L'' (Some ''O'')]"
    using auto_counter_floor [OF h2 h3 h4 h5 m2, of "(*)" 100 "[]"] fl by simp
  show ?thesis
    by (intro conjI g1 g2 h3 h4 h5 a b)
qed

section \<open>The rate limiter\<close>

lemma in_window_mono: "t \<le> now \<Longrightarrow> in_window now x \<Longrightarrow> in_window t x"
  by (simp add: in_window_def)

lemma filter_in_window_twice:
  "t \<le> now \<Longrightarrow> filter (in_window now) (filter (in_window t) xs) = filter (in_window now) xs"
  by (induction xs) (auto dest: in_window_mono)

lemma checkRateLimit_cases:
  "checkRateLimit n now ts =
     (if n \<le> int (length (filter (in_window now) ts))
      then (False, filter (in_window now) ts)
      else (True, filter (in_window now) ts @ [now]))"
proof -
  have "(\<lambda>t. now - t < DEAL_RATE_WINDOW_MS) = in_window now"
    by (rule ext) (simp add: in_window_def)
  then show ?thesis by (simp add: checkRateLimit_def Let_def)
qed

lemma triggers_append:
  "triggers n (xs @ ys) ts =
     (case triggers n xs ts of
        (a1, l1) \<Rightarrow> (case triggers n ys l1 of (a2, l2) \<Rightarrow> (a1 @ a2, l2)))"
  by (induction xs arbitrary: ts) (auto split: prod.splits)

lemma triggers_snoc:
  "triggers n xs ts = (acc, left) \<Longrightarrow>
   triggers n (xs @ [now]) ts =
     (if n \<le> int (length (filter (in_window now) left))
      then (acc, filter (in_window now) left)
      else (acc @ [now], filter (in_window now) left @ [now]))"
  by (simp add: triggers_append checkRateLimit_cases)

text \<open>
  With a clock that does not run backwards, the list the limiter keeps and the accepted
  triggers agree on every window that ends now or later.
\<close>

lemma triggers_window:
  "sorted tms \<Longrightarrow> \<forall>t \<in> set tms. t \<le> now \<Longrightarrow> triggers n tms [] = (acc, left) \<Longrightarrow>
   filter (in_window now) left = filter (in_window now) acc"
proof (induction tms arbitrary: now acc left rule: rev_induct)
  case Nil
  then show ?case by simp
next
  case (snoc t tms)
  obtain acc0 left0 where r: "triggers n tms [] = (acc0, left0)"
    by (cases "triggers n tms []")
  have st: "sorted tms" and le: "\<forall>x \<in> set tms. x \<le> t"
    using snoc.prems(1) by (auto simp: sorted_append)
  have tn: "t \<le> now" using snoc.prems(2) by simp
  have ih: "filter (in_window t) left0 = filter (in_window t) acc0"
    using snoc.IH [OF st le r] .
  show ?case
  proof (cases "n \<le> int (length (filter (in_window t) left0))")
    case True
    then have "acc = acc0" "left = filter (in_window t) left0"
      using snoc.prems(3) triggers_snoc [OF r, of t] by simp_all
    then show ?thesis
      using ih filter_in_window_twice [OF tn] by simp
  next
    case False
    then have "acc = acc0 @ [t]" "left = filter (in_window t) left0 @ [t]"
      using snoc.prems(3) triggers_snoc [OF r, of t] by simp_all
    then show ?thesis
      using ih filter_in_window_twice [OF tn] by simp
  qed
qed

lemma all_kept_iff:
  "length (filter P xs) = length xs \<longleftrightarrow> (\<forall>x \<in> set xs. P x)"
  by (metis filter_True filter_id_conv length_filter_less less_irrefl_nat)

lemma oldest_decides:
  assumes "ts \<noteq> []" and "int (length ts) = n"
  shows "fst (checkRateLimit n now ts) \<longleftrightarrow> DEAL_RATE_WINDOW_MS \<le> now - Min (set ts)"
proof -
  have le: "length (filter (in_window now) ts) \<le> length ts" by simp
  have "fst (checkRateLimit n now ts) \<longleftrightarrow> length (filter (in_window now) ts) \<noteq> length ts"
    using assms(2) le by (auto simp: checkRateLimit_cases simp del: length_filter_le)
  also have "\<dots> \<longleftrightarrow> (\<exists>x \<in> set ts. \<not> in_window now x)"
    by (simp add: all_kept_iff)
  also have "\<dots> \<longleftrightarrow> (\<exists>x \<in> set ts. x \<le> now - DEAL_RATE_WINDOW_MS)"
  proof -
    have "\<And>x. (\<not> in_window now x) = (x \<le> now - DEAL_RATE_WINDOW_MS)"
      by (simp add: in_window_def) linarith
    then show ?thesis by simp
  qed
  also have "\<dots> \<longleftrightarrow> Min (set ts) \<le> now - DEAL_RATE_WINDOW_MS"
    using assms(1) by (simp add: Min_le_iff)
  finally show ?thesis by auto
qed

text \<open>
  C9. Triggers arrive at times that do not decrease; \<open>acc\<close> are the triggers accepted so
  far and \<open>left\<close> is the list the limiter holds. If the accepted triggers of the last window
  are as many as the capacity, the next trigger is refused and no timestamp is recorded for
  it; if they are fewer, it is accepted and its time recorded. And when the list holds as
  many timestamps as the capacity, the next trigger is accepted exactly when the oldest of
  them is at least one window old (the window is half open: at an age of exactly one
  window a timestamp is outside it).
\<close>

theorem rate_limiter_sliding_window:
  "(sorted (tms @ [now]) \<and> triggers n tms [] = (acc, left) \<longrightarrow>
      (n \<le> int (length (filter (in_window now) acc)) \<longrightarrow>
         checkRateLimit n now left = (False, filter (in_window now) left) \<and>
         triggers n (tms @ [now]) [] = (acc, filter (in_window now) left)) \<and>
      (int (length (filter (in_window now) acc)) < n \<longrightarrow>
         checkRateLimit n now left = (True, filter (in_window now) left @ [now]) \<and>
         triggers n (tms @ [now]) [] = (acc @ [now], filter (in_window now) left @ [now]))) \<and>
   (ts \<noteq> [] \<and> int (length ts) = n \<longrightarrow>
      (fst (checkRateLimit n now ts) \<longleftrightarrow> DEAL_RATE_WINDOW_MS \<le> now - Min (set ts)))"
proof (intro conjI impI)
  assume a: "sorted (tms @ [now]) \<and> triggers n tms [] = (acc, left)"
  then have st: "sorted tms" and le: "\<forall>t \<in> set tms. t \<le> now"
    and r: "triggers n tms [] = (acc, left)"
    by (auto simp: sorted_append)
  have w: "filter (in_window now) left = filter (in_window now) acc"
    using triggers_window [OF st le r] .
  {
    assume "n \<le> int (length (filter (in_window now) acc))"
    then have c: "n \<le> int (length (filter (in_window now) left))" using w by simp
    show "checkRateLimit n now left = (False, filter (in_window now) left)"
      using c by (simp add: checkRateLimit_cases)
    show "triggers n (tms @ [now]) [] = (acc, filter (in_window now) left)"
      using c triggers_snoc [OF r, of now] by simp
  }
  {
    assume "int (length (filter (in_window now) acc)) < n"
    then have c: "\<not> n \<le> int (length (filter (in_window now) left))" using w by simp
    show "checkRateLimit n now left = (True, filter (in_window now) left @ [now])"
      using c by (simp add: checkRateLimit_cases)
    show "triggers n (tms @ [now]) [] = (acc @ [now], filter (in_window now) left @ [now])"
      using c triggers_snoc [OF r, of now] by simp
  }
next
  assume "ts \<noteq> [] \<and> int (length ts) = n"
  then show "fst (checkRateLimit n now ts) \<longleftrightarrow> DEAL_RATE_WINDOW_MS \<le> now - Min (set ts)"
    using oldest_decides [of ts n now] by blast
qed

theorem rate_limiter_sliding_window_witness:
  "(sorted ([0, 1000] @ [2000 :: int]) \<and> triggers 2 [0, 1000] [] = ([0, 1000], [0, 1000])) \<and>
   2 \<le> int (length (filter (in_window 2000) [0, 1000])) \<and>
   checkRateLimit 2 2000 [0, 1000] = (False, filter (in_window 2000) [0, 1000]) \<and>
   triggers 2 ([0, 1000] @ [2000]) [] = ([0, 1000], filter (in_window 2000) [0, 1000]) \<and>
   (sorted ([0, 1000] @ [3600000 :: int]) \<and> triggers 2 [0, 1000] [] = ([0, 1000], [0, 1000])) \<and>
   int (length (filter (in_window 3600000) [0, 1000])) < 2 \<and>
   checkRateLimit 2 3600000 [0, 1000] = (True, filter (in_window 3600000) [0, 1000] @ [3600000]) \<and>
   triggers 2 ([0, 1000] @ [3600000]) [] =
     ([0, 1000] @ [3600000], filter (in_window 3600000) [0, 1000] @ [3600000]) \<and>
   ([0, 1000] \<noteq> ([] :: int list) \<and> int (length [0 :: int, 1000]) = 2) \<and>
   fst (checkRateLimit 2 3600000 [0, 1000]) \<and>
   DEAL_RATE_WINDOW_MS \<le> 3600000 - Min (set [0, 1000]) \<and>
   \<not> fst (checkRateLimit 2 3599999 [0, 1000]) \<and>
   \<not> DEAL_RATE_WINDOW_MS \<le> 3599999 - Min (set [0, 1000])"
proof -
  have run: "triggers 2 [0, 1000] [] = ([0, 1000], [0, 1000])"
    by (simp add: checkRateLimit_def DEAL_RATE_WINDOW_MS_def)
  have h1: "sorted ([0, 1000] @ [2000 :: int]) \<and> triggers 2 [0, 1000] [] = ([0, 1000], [0, 1000])"
    using run by simp
  have h2: "2 \<le> int (length (filter (in_window 2000) [0, 1000]))"
    by (simp add: in_window_def DEAL_RATE_WINDOW_MS_def)
  have h3: "sorted ([0, 1000] @ [3600000 :: int]) \<and> triggers 2 [0, 1000] [] = ([0, 1000], [0, 1000])"
    using run by simp
  have h4: "int (length (filter (in_window 3600000) [0, 1000])) < 2"
    by (simp add: in_window_def DEAL_RATE_WINDOW_MS_def)
  have h5: "[0, 1000] \<noteq> ([] :: int list) \<and> int (length [0 :: int, 1000]) = 2"
    by simp
  have m1: "DEAL_RATE_WINDOW_MS \<le> 3600000 - Min (set [0, 1000])"
    and m2: "\<not> DEAL_RATE_WINDOW_MS \<le> 3599999 - Min (set [0, 1000])"
    by (simp_all add: DEAL_RATE_WINDOW_MS_def)
  note t1 = rate_limiter_sliding_window
    [where tms = "[0, 1000]" and now = 2000 and n = 2 and acc = "[0, 1000]"
       and left = "[0, 1000]" and ts = "[0, 1000]"]
  note t2 = rate_limiter_sliding_window
    [where tms = "[0, 1000]" and now = 3600000 and n = 2 and acc = "[0, 1000]"
       and left = "[0, 1000]" and ts = "[0, 1000]"]
  note t3 = rate_limiter_sliding_window
    [where tms = "[0, 1000]" and now = 3599999 and n = 2 and acc = "[0, 1000]"
       and left = "[0, 1000]" and ts = "[0, 1000]"]
  have a: "checkRateLimit 2 2000 [0, 1000] = (False, filter (in_window 2000) [0, 1000])"
    "triggers 2 ([0, 1000] @ [2000]) [] = ([0, 1000], filter (in_window 2000) [0, 1000])"
    using t1 h1 h2 by blast+
  have b: "checkRateLimit 2 3600000 [0, 1000] =
      (True, filter (in_window 3600000) [0, 1000] @ [3600000])"
    "triggers 2 ([0, 1000] @ [3600000]) [] =
      ([0, 1000] @ [3600000], filter (in_window 3600000) [0, 1000] @ [3600000])"
    using t2 h3 h4 by blast+
  have c: "fst (checkRateLimit 2 3600000 [0, 1000])"
    using t2 h5 m1 by blast
  have d: "\<not> fst (checkRateLimit 2 3599999 [0, 1000])"
    using t3 h5 m2 by blast
  show ?thesis
    by (intro conjI h1 h2 a h3 h4 b h5 c m1 d m2)
qed

end
